theory Spec2Isabelle
  imports Main
begin

section \<open>Strings\<close>

text \<open>
  JavaScript strings are modelled as \<^typ>\<open>string\<close>: a character stands for a UTF-16 code
  unit below 256, that is for a code point of Basic Latin or of the Latin-1 Supplement.
  On these code points \<open>String.prototype.toLowerCase\<close> adds 32 to the upper-case letters,
  which are \<open>A\<close> to \<open>Z\<close>, U+00C0 to U+00D6 and U+00D8 to U+00DE, and leaves every other code
  point as it is (U+00D7 is the multiplication sign).
\<close>

definition toLowerCase_char :: "char \<Rightarrow> char" where
  "toLowerCase_char c =
     (let n = (of_char c :: nat)
      in if (65 \<le> n \<and> n \<le> 90) \<or> (192 \<le> n \<and> n \<le> 214) \<or> (216 \<le> n \<and> n \<le> 222)
         then char_of (n + 32)
         else c)"

definition toLowerCase :: "string \<Rightarrow> string" where
  "toLowerCase s = map toLowerCase_char s"

text \<open>
  \<open>s.split(d)\<close> for a one-character separator: the result is never empty, and an empty
  string splits into one empty piece.
\<close>

fun split :: "char \<Rightarrow> string \<Rightarrow> string list" where
  "split d [] = [[]]"
| "split d (c # cs) =
     (if c = d then [] # split d cs
      else (case split d cs of [] \<Rightarrow> [[c]] | w # ws \<Rightarrow> (c # w) # ws))"

section \<open>Permission matching\<close>

text \<open>The \<open>for\<close> loop of \<open>isPermissionMatch\<close>, from index \<open>i\<close> on.\<close>

function match_loop :: "string list \<Rightarrow> string list \<Rightarrow> nat \<Rightarrow> bool" where
  "match_loop piecesA piecesB i =
     (if i < min (length piecesA) (length piecesB) then
        (if piecesA ! i \<noteq> piecesB ! i \<and> piecesA ! i \<noteq> ''*'' \<and> piecesB ! i \<noteq> ''*''
         then False
         else match_loop piecesA piecesB (Suc i))
      else True)"
  by pat_completeness auto
termination
  by (relation "measure (\<lambda>(a, b, i). min (length a) (length b) - i)") auto

declare match_loop.simps [simp del]

definition isPermissionMatch :: "string \<Rightarrow> string \<Rightarrow> bool" where
  "isPermissionMatch permissionA permissionB =
     (let piecesA = split (CHR ''.'') (toLowerCase permissionA);
          piecesB = split (CHR ''.'') (toLowerCase permissionB)
      in match_loop piecesA piecesB 0)"

section \<open>Roles, users and the role registry\<close>

text \<open>
  The typedefs of the source. \<open>role_id\<close> and \<open>user_id\<close> are the \<open>_id\<close> fields, and
  \<open>default_flag\<close> is the field \<open>default\<close>. The name of a user is read by no operation
  and is left out.
\<close>

record role =
  role_id :: string
  display :: string
  permissions :: "string list"
  inherits :: "string list"
  assignable :: bool
  default_flag :: bool

text \<open>
  A user identifier or a \<open>targetId\<close> is a number or a string; \<open>===\<close> on two of them is
  equality of the tagged values.
\<close>

datatype ident = Num int | Str string

record user =
  user_id :: ident
  roleIds :: "string list"

text \<open>
  \<open>roleMap\<close> starts as the object literal \<open>{}\<close>, whose prototype is
  \<open>Object.prototype\<close>. A property read \<open>roleMap[key]\<close> and the test \<open>key in roleMap\<close>
  follow the prototype chain, and the assignment \<open>roleMap['__proto__'] = role\<close> runs the
  inherited setter, which makes \<open>role\<close> the prototype of \<open>roleMap\<close> and adds no entry.
  So the object is its own properties \<open>own\<close> together with \<open>proto\<close>: \<open>None\<close> while the
  prototype is \<open>Object.prototype\<close>, and \<open>Some role\<close> once a role (whose prototype is
  \<open>Object.prototype\<close> in turn) has taken its place.
\<close>

record role_object =
  own :: "string \<rightharpoonup> role"
  proto :: "role option"

text \<open>
  What a property read on \<open>roleMap\<close> can give: a role, \<open>undefined\<close>, a member of
  \<open>Object.prototype\<close> (a function, or \<open>Object.prototype\<close> itself under \<open>__proto__\<close>), or
  a field of the role that is the prototype. \<open>Null\<close> is what \<open>getRole\<close> returns for a
  missing role.
\<close>

datatype jsval =
    Undefined
  | Null
  | RoleObj role
  | Builtin
  | StrVal string
  | BoolVal bool
  | ArrVal "string list"

definition object_prototype_keys :: "string list" where
  "object_prototype_keys =
     [''constructor'', ''__defineGetter__'', ''__defineSetter__'', ''hasOwnProperty'',
      ''__lookupGetter__'', ''__lookupSetter__'', ''isPrototypeOf'',
      ''propertyIsEnumerable'', ''toString'', ''valueOf'', ''__proto__'',
      ''toLocaleString'']"

definition role_property :: "role \<Rightarrow> string \<Rightarrow> jsval option" where
  "role_property r key =
     (if key = ''_id'' then Some (StrVal (role_id r))
      else if key = ''display'' then Some (StrVal (display r))
      else if key = ''permissions'' then Some (ArrVal (permissions r))
      else if key = ''inherits'' then Some (ArrVal (inherits r))
      else if key = ''assignable'' then Some (BoolVal (assignable r))
      else if key = ''default'' then Some (BoolVal (default_flag r))
      else None)"

text \<open>The read \<open>obj[key]\<close>.\<close>

definition get_property :: "role_object \<Rightarrow> string \<Rightarrow> jsval" where
  "get_property obj key =
     (case own obj key of
        Some r \<Rightarrow> RoleObj r
      | None \<Rightarrow>
          (case proto obj of
             None \<Rightarrow> if key \<in> set object_prototype_keys then Builtin else Undefined
           | Some r \<Rightarrow>
               if key = ''__proto__'' then RoleObj r
               else (case role_property r key of
                       Some v \<Rightarrow> v
                     | None \<Rightarrow>
                         if key \<in> set object_prototype_keys then Builtin else Undefined)))"

text \<open>The test \<open>key in obj\<close>.\<close>

definition has_property :: "role_object \<Rightarrow> string \<Rightarrow> bool" where
  "has_property obj key \<longleftrightarrow>
     (case own obj key of
        Some r \<Rightarrow> True
      | None \<Rightarrow>
          (case proto obj of None \<Rightarrow> False | Some r \<Rightarrow> role_property r key \<noteq> None)
          \<or> key \<in> set object_prototype_keys)"

text \<open>The assignment \<open>obj[key] = r\<close>.\<close>

definition set_property :: "role_object \<Rightarrow> string \<Rightarrow> role \<Rightarrow> role_object" where
  "set_property obj key r =
     (if key = ''__proto__'' \<and> own obj key = None then obj\<lparr>proto := Some r\<rparr>
      else obj\<lparr>own := (own obj)(key \<mapsto> r)\<rparr>)"

text \<open>The truth value of \<open>!!v\<close>.\<close>

fun truthy :: "jsval \<Rightarrow> bool" where
  "truthy Undefined = False"
| "truthy Null = False"
| "truthy (RoleObj r) = True"
| "truthy Builtin = True"
| "truthy (StrVal s) = (s \<noteq> [])"
| "truthy (BoolVal b) = b"
| "truthy (ArrVal xs) = True"

record registry =
  roles :: "role list"
  roleMap :: role_object

definition initial :: registry where
  "initial = \<lparr>roles = [], roleMap = \<lparr>own = Map.empty, proto = None\<rparr>\<rparr>"

fun loadRoles :: "registry \<Rightarrow> role list \<Rightarrow> registry" where
  "loadRoles reg [] = reg"
| "loadRoles reg (role # rest) =
     loadRoles
       (reg\<lparr>roleMap := set_property (roleMap reg) (role_id role) role,
            roles := roles reg @ [role]\<rparr>)
       rest"

definition getRole :: "registry \<Rightarrow> string \<Rightarrow> jsval" where
  "getRole reg roleId =
     (if has_property (roleMap reg) roleId then get_property (roleMap reg) roleId else Null)"

section \<open>Permission checks\<close>

text \<open>
  A call either returns a boolean, \<open>Some (Inr b)\<close>, or throws, \<open>Some (Inl e)\<close>. The
  recursion of \<open>hasPermission\<close> through \<open>inherits\<close> has no bound of its own, so the model
  takes the number of nested calls it may make as its first argument; \<open>None\<close> says that
  this number was not enough.
\<close>

datatype error = TypeError

type_synonym outcome = "(error + bool) option"

text \<open>
  \<open>for (const x of xs) if (f(x)) return true;\<close> followed by \<open>return false\<close>: the loop
  stops at the first call that returns true, throws or does not return.
\<close>

fun some_call :: "('a \<Rightarrow> outcome) \<Rightarrow> 'a list \<Rightarrow> outcome" where
  "some_call f [] = Some (Inr False)"
| "some_call f (x # xs) =
     (case f x of
        None \<Rightarrow> None
      | Some (Inl e) \<Rightarrow> Some (Inl e)
      | Some (Inr b) \<Rightarrow> if b then Some (Inr True) else some_call f xs)"

text \<open>
  \<open>for (const x of xs) if (!f(x)) return false;\<close> followed by \<open>return true\<close>.
\<close>

fun every_call :: "('a \<Rightarrow> outcome) \<Rightarrow> 'a list \<Rightarrow> outcome" where
  "every_call f [] = Some (Inr True)"
| "every_call f (x # xs) =
     (case f x of
        None \<Rightarrow> None
      | Some (Inl e) \<Rightarrow> Some (Inl e)
      | Some (Inr b) \<Rightarrow> if b then every_call f xs else Some (Inr False))"

text \<open>
  The argument \<open>userOrRoleId\<close>: \<open>null\<close> (or \<open>undefined\<close>), a string, or a user object.
\<close>

datatype subject = NoSubject | RoleId string | User user

text \<open>
  In the string branch \<open>role\<close> is whatever \<open>roleMap[userOrRoleId]\<close> gives. A falsy value
  returns false; a truthy value that is not a role has no \<open>permissions\<close>, and
  \<open>for (... of undefined)\<close> throws a \<open>TypeError\<close>.
\<close>

fun hasPermission :: "nat \<Rightarrow> registry \<Rightarrow> subject \<Rightarrow> string \<Rightarrow> outcome" where
  "hasPermission 0 reg userOrRoleId permission = None"
| "hasPermission (Suc n) reg NoSubject permission = Some (Inr False)"
| "hasPermission (Suc n) reg (RoleId roleId) permission =
     (if roleId = [] then Some (Inr False)
      else
        (case get_property (roleMap reg) roleId of
           RoleObj role \<Rightarrow>
             if list_ex (\<lambda>rolePermission. isPermissionMatch permission rolePermission)
                  (permissions role)
             then Some (Inr True)
             else some_call (\<lambda>childRoleId. hasPermission n reg (RoleId childRoleId) permission)
                    (inherits role)
         | v \<Rightarrow> if truthy v then Some (Inl TypeError) else Some (Inr False)))"
| "hasPermission (Suc n) reg (User u) permission =
     some_call (\<lambda>roleId. hasPermission n reg (RoleId roleId) permission) (roleIds u)"

section \<open>Permission templates\<close>

text \<open>
  \<open>find_first pat s\<close> finds the first occurrence of \<open>pat\<close> in \<open>s\<close> and gives the text
  in front of it and the text behind it.
\<close>

fun find_first :: "string \<Rightarrow> string \<Rightarrow> (string \<times> string) option" where
  "find_first pat [] = (if pat = [] then Some ([], []) else None)"
| "find_first pat (c # cs) =
     (if take (length pat) (c # cs) = pat then Some ([], drop (length pat) (c # cs))
      else (case find_first pat cs of
              None \<Rightarrow> None
            | Some (front, back) \<Rightarrow> Some (c # front, back)))"

text \<open>
  The replacement text of \<open>String.prototype.replace\<close> for a string pattern: in the
  replacement string \<open>$$\<close> stands for \<open>$\<close>, \<open>$&\<close> for the matched text, \<open>$`\<close> for the text
  in front of the match and \<open>$'\<close> for the text behind it; a string pattern has no capture
  groups, so every other character, a \<open>$\<close> included, stands for itself.
\<close>

fun substitution :: "string \<Rightarrow> string \<Rightarrow> string \<Rightarrow> string \<Rightarrow> string" where
  "substitution matched front back [] = []"
| "substitution matched front back [c] = [c]"
| "substitution matched front back (c # d # rest) =
     (if c = CHR ''$'' \<and> d = CHR ''$'' then CHR ''$'' # substitution matched front back rest
      else if c = CHR ''$'' \<and> d = CHR ''&'' then matched @ substitution matched front back rest
      else if c = CHR ''$'' \<and> d = CHR 0x60 then front @ substitution matched front back rest
      else if c = CHR ''$'' \<and> d = CHR 0x27 then back @ substitution matched front back rest
      else c # substitution matched front back (d # rest))"

text \<open>\<open>s.replace(pat, replacement)\<close> for strings \<open>pat\<close> and \<open>replacement\<close>.\<close>

definition replace :: "string \<Rightarrow> string \<Rightarrow> string \<Rightarrow> string" where
  "replace s pat replacement =
     (case find_first pat s of
        None \<Rightarrow> s
      | Some (front, back) \<Rightarrow> front @ substitution pat front back replacement @ back)"

text \<open>The template literal \<open>`<${key}>`\<close>.\<close>

definition placeholder :: "string \<Rightarrow> string" where
  "placeholder key = ''<'' @ key @ ''>''"

text \<open>
  The options: a field is \<open>None\<close> when the key is not in the object. \<open>static\<close> and \<open>all\<close>
  list their entries in the order in which \<open>for ... in\<close> visits the keys.
\<close>

record authorizationOptions =
  targetId :: "ident option"
  static :: "(string \<times> string) list option"
  all :: "(string \<times> string list) list option"

definition fillPermissionTemplate :: "ident \<Rightarrow> string \<Rightarrow> authorizationOptions \<Rightarrow> string list" where
  "fillPermissionTemplate userId template options =
     (let permissions = [template];
          permissions =
            (case targetId options of
               None \<Rightarrow> permissions
             | Some target \<Rightarrow>
                 map (\<lambda>permission.
                        replace permission ''<target>''
                          (if userId = target then ''self'' else ''others''))
                   permissions);
          permissions =
            (case static options of
               None \<Rightarrow> permissions
             | Some entries \<Rightarrow>
                 fold (\<lambda>(key, val) permissions.
                         map (\<lambda>permission. replace permission (placeholder key) val)
                           permissions)
                   entries permissions);
          permissions =
            (case all options of
               None \<Rightarrow> permissions
             | Some entries \<Rightarrow>
                 fold (\<lambda>(key, vals) permissions.
                         concat (map (\<lambda>permission.
                                        map (\<lambda>val. replace permission (placeholder key) val)
                                          vals)
                                   permissions))
                   entries permissions)
      in permissions)"

text \<open>
  \<open>isAuthorized\<close> reads \<open>user._id\<close> first, so its argument is a user object.
\<close>

definition isAuthorized :: "nat \<Rightarrow> registry \<Rightarrow> user \<Rightarrow> string \<Rightarrow> authorizationOptions \<Rightarrow> outcome" where
  "isAuthorized n reg u template options =
     every_call (\<lambda>permission. hasPermission n reg (User u) permission)
       (fillPermissionTemplate (user_id u) template options)"

section \<open>The fan-out as the specification words it\<close>

text \<open>
  Following the specification's words, not the source: the first occurrence of the
  pattern, found by reading the string from the left, is replaced by the value itself,
  and the \<open>all\<close> step takes the keys in order and, for each current string, one string per
  value in the order of the value list.
\<close>

fun replace_literal :: "string \<Rightarrow> string \<Rightarrow> string \<Rightarrow> string" where
  "replace_literal [] pat v = (if pat = [] then v else [])"
| "replace_literal (c # cs) pat v =
     (if take (length pat) (c # cs) = pat then v @ drop (length pat) (c # cs)
      else c # replace_literal cs pat v)"

definition fan_out_literal :: "(string \<times> string list) list \<Rightarrow> string list \<Rightarrow> string list" where
  "fan_out_literal entries current =
     fold (\<lambda>(key, vals) current.
             concat (map (\<lambda>permission.
                            map (\<lambda>val. replace_literal permission (placeholder key) val) vals)
                       current))
       entries current"

text \<open>
  A value holds a replacement pattern when \<open>$$\<close>, \<open>$&\<close>, \<open>$`\<close> or \<open>$'\<close> occurs in it.
\<close>

fun has_pattern :: "string \<Rightarrow> bool" where
  "has_pattern [] = False"
| "has_pattern [c] = False"
| "has_pattern (c # d # rest) =
     ((c = CHR ''$'' \<and> d \<in> set [CHR ''$'', CHR ''&'', CHR 0x60, CHR 0x27])
      \<or> has_pattern (d # rest))"

section \<open>Letters and their case\<close>

text \<open>
  The letters below U+0100 that have an upper-case and a lower-case form, listed side by
  side: \<open>A\<close> to \<open>Z\<close> with \<open>a\<close> to \<open>z\<close>, and the accented capitals U+00C0 to U+00DE with
  the small letters U+00E0 to U+00FE (without the signs U+00D7 and U+00F7). Two strings
  are equal up to case when they have the same length and at every position the same
  character or the two forms of one letter.
\<close>

definition upper_case_letters :: string where
  "upper_case_letters =
     ''ABCDEFGHIJKLMNOPQRSTUVWXYZ'' @
       [CHR 0xC0, CHR 0xC1, CHR 0xC2, CHR 0xC3, CHR 0xC4, CHR 0xC5, CHR 0xC6, CHR 0xC7,
        CHR 0xC8, CHR 0xC9, CHR 0xCA, CHR 0xCB, CHR 0xCC, CHR 0xCD, CHR 0xCE, CHR 0xCF,
        CHR 0xD0, CHR 0xD1, CHR 0xD2, CHR 0xD3, CHR 0xD4, CHR 0xD5, CHR 0xD6, CHR 0xD8,
        CHR 0xD9, CHR 0xDA, CHR 0xDB, CHR 0xDC, CHR 0xDD, CHR 0xDE]"

definition lower_case_letters :: string where
  "lower_case_letters =
     ''abcdefghijklmnopqrstuvwxyz'' @
       [CHR 0xE0, CHR 0xE1, CHR 0xE2, CHR 0xE3, CHR 0xE4, CHR 0xE5, CHR 0xE6, CHR 0xE7,
        CHR 0xE8, CHR 0xE9, CHR 0xEA, CHR 0xEB, CHR 0xEC, CHR 0xED, CHR 0xEE, CHR 0xEF,
        CHR 0xF0, CHR 0xF1, CHR 0xF2, CHR 0xF3, CHR 0xF4, CHR 0xF5, CHR 0xF6, CHR 0xF8,
        CHR 0xF9, CHR 0xFA, CHR 0xFB, CHR 0xFC, CHR 0xFD, CHR 0xFE]"

definition case_pairs :: "(char \<times> char) list" where
  "case_pairs = zip upper_case_letters lower_case_letters"

definition same_letter :: "char \<Rightarrow> char \<Rightarrow> bool" where
  "same_letter x y \<longleftrightarrow> x = y \<or> (x, y) \<in> set case_pairs \<or> (y, x) \<in> set case_pairs"

definition equal_ignoring_case :: "string \<Rightarrow> string \<Rightarrow> bool" where
  "equal_ignoring_case a b = list_all2 same_letter a b"

section \<open>The inheritance graph\<close>

text \<open>
  Two notions of the specification, stated on the registry and not on the run of
  \<open>hasPermission\<close>. A role grants a permission when one of its own permissions matches it
  or, through \<open>inherits\<close>, a role it inherits from grants it. The identifier has to be a
  non-empty string under which \<open>roleMap\<close> gives a role.
\<close>

inductive role_grants :: "registry \<Rightarrow> string \<Rightarrow> string \<Rightarrow> bool"
  for reg :: registry and permission :: string
where
  held:
    "roleId \<noteq> [] \<Longrightarrow> get_property (roleMap reg) roleId = RoleObj role \<Longrightarrow>
     rolePermission \<in> set (permissions role) \<Longrightarrow>
     isPermissionMatch permission rolePermission \<Longrightarrow>
     role_grants reg permission roleId"
| inherited:
    "roleId \<noteq> [] \<Longrightarrow> get_property (roleMap reg) roleId = RoleObj role \<Longrightarrow>
     childRoleId \<in> set (inherits role) \<Longrightarrow>
     role_grants reg permission childRoleId \<Longrightarrow>
     role_grants reg permission roleId"

text \<open>
  The edges of the \<open>inherits\<close> graph: from an identifier in the \<open>inherits\<close> list of a role
  to the identifier under which \<open>roleMap\<close> gives that role.
\<close>

definition inherits_graph :: "registry \<Rightarrow> (string \<times> string) set" where
  "inherits_graph reg =
     {(childRoleId, roleId).
        \<exists>role. get_property (roleMap reg) roleId = RoleObj role
               \<and> childRoleId \<in> set (inherits role)}"

text \<open>
  An identifier that names a role or nothing: what \<open>roleMap\<close> gives under it is a role
  or is falsy, and not a property that \<open>roleMap\<close> inherits.
\<close>

definition names_role_or_nothing :: "registry \<Rightarrow> string \<Rightarrow> bool" where
  "names_role_or_nothing reg roleId =
     (case get_property (roleMap reg) roleId of
        RoleObj role \<Rightarrow> True
      | v \<Rightarrow> \<not> truthy v)"

section \<open>Example data\<close>

text \<open>
  The roles of the inheritance example of the specification, and the user, template and
  options of the README.
\<close>

definition driver :: role where
  "driver =
     \<lparr>role_id = ''driver'', display = ''Driver'',
      permissions = [''trips.view.self'', ''users.update.self.driver''],
      inherits = [], assignable = True, default_flag = True\<rparr>"

definition supervisor :: role where
  "supervisor =
     \<lparr>role_id = ''supervisor'', display = ''Supervisor'',
      permissions = [''users.update.self.supervisor''],
      inherits = [''driver''], assignable = True, default_flag = False\<rparr>"

definition readme_template :: string where
  "readme_template = ''users.<action>.<target>.<role>''"

definition readme_options :: authorizationOptions where
  "readme_options =
     \<lparr>targetId = Some (Num 5), static = Some [(''action'', ''update'')],
      all = Some [(''role'', [''driver'', ''supervisor''])]\<rparr>"

text \<open>A role that names itself in \<open>inherits\<close>.\<close>

definition self_inheriting :: role where
  "self_inheriting =
     \<lparr>role_id = ''loop'', display = ''Loop'', permissions = [], inherits = [''loop''],
      assignable = False, default_flag = False\<rparr>"

section \<open>Properties of the matcher\<close>

lemma match_loop_iff:
  "match_loop a b i \<longleftrightarrow>
     (\<forall>j. i \<le> j \<and> j < min (length a) (length b) \<longrightarrow>
          a ! j = b ! j \<or> a ! j = ''*'' \<or> b ! j = ''*'')"
proof (induction a b i rule: match_loop.induct)
  case (1 a b i)
  show ?case
  proof (cases "i < min (length a) (length b)")
    case False
    then show ?thesis by (subst match_loop.simps) auto
  next
    case inside: True
    show ?thesis
    proof (cases "a ! i \<noteq> b ! i \<and> a ! i \<noteq> ''*'' \<and> b ! i \<noteq> ''*''")
      case True
      with inside show ?thesis by (subst match_loop.simps) auto
    next
      case False
      with inside have "match_loop a b i = match_loop a b (Suc i)"
        by (subst match_loop.simps) auto
      also have "\<dots> \<longleftrightarrow> (\<forall>j. Suc i \<le> j \<and> j < min (length a) (length b) \<longrightarrow>
          a ! j = b ! j \<or> a ! j = ''*'' \<or> b ! j = ''*'')"
        using "1.IH" inside False by blast
      also have "\<dots> \<longleftrightarrow> (\<forall>j. i \<le> j \<and> j < min (length a) (length b) \<longrightarrow>
          a ! j = b ! j \<or> a ! j = ''*'' \<or> b ! j = ''*'')"
        using False by (metis Suc_leD Suc_leI le_neq_implies_less)
      finally show ?thesis .
    qed
  qed
qed

lemma match_loop_commute: "match_loop a b i = match_loop b a i"
  unfolding match_loop_iff by (auto simp: min.commute)

lemma toLowerCase_simps [simp]:
  "toLowerCase [] = []"
  "toLowerCase (c # cs) = toLowerCase_char c # toLowerCase cs"
  by (simp_all add: toLowerCase_def)

text \<open>
  C8: \<open>isPermissionMatch\<close> is reflexive: every permission string matches itself.
\<close>

theorem isPermissionMatch_reflexive: "isPermissionMatch p p"
proof -
  let ?pieces = "split (CHR ''.'') (toLowerCase p)"
  have "match_loop ?pieces ?pieces 0"
    unfolding match_loop_iff by simp
  then show ?thesis
    by (simp add: isPermissionMatch_def)
qed

text \<open>
  C4: \<open>isPermissionMatch\<close> is symmetric: exchanging the two permission strings does not
  change the result.
\<close>

theorem isPermissionMatch_symmetric: "isPermissionMatch a b = isPermissionMatch b a"
proof -
  let ?piecesA = "split (CHR ''.'') (toLowerCase a)"
  let ?piecesB = "split (CHR ''.'') (toLowerCase b)"
  have "match_loop ?piecesA ?piecesB 0 = match_loop ?piecesB ?piecesA 0"
    by (rule match_loop_commute)
  then show ?thesis
    by (simp add: isPermissionMatch_def)
qed

lemma isPermissionMatch_iff:
  "isPermissionMatch a b \<longleftrightarrow>
     (\<forall>i < min (length (split (CHR ''.'') (toLowerCase a)))
                (length (split (CHR ''.'') (toLowerCase b))).
        split (CHR ''.'') (toLowerCase a) ! i = split (CHR ''.'') (toLowerCase b) ! i
        \<or> split (CHR ''.'') (toLowerCase a) ! i = ''*''
        \<or> split (CHR ''.'') (toLowerCase b) ! i = ''*'')"
  by (simp add: isPermissionMatch_def match_loop_iff Let_def)

subsection \<open>Lower-casing and the letters\<close>

lemma case_pairs_lower:
  "list_all (\<lambda>(u, l). toLowerCase_char u = l \<and> toLowerCase_char l = l) case_pairs"
  by code_simp

lemma upper_case_codes:
  "list_all (\<lambda>n. char_of n \<in> set upper_case_letters)
     ([65..<91] @ [192..<215] @ [216..<223])"
  by code_simp

lemma case_pair_lower:
  assumes "(u, l) \<in> set case_pairs"
  shows "toLowerCase_char u = l" and "toLowerCase_char l = l"
  using assms case_pairs_lower by (auto simp: list_all_iff)

lemma same_letter_lower: "same_letter x y \<Longrightarrow> toLowerCase_char x = toLowerCase_char y"
  by (auto simp: same_letter_def case_pair_lower)

lemma equal_ignoring_case_lower:
  "equal_ignoring_case a b \<Longrightarrow> toLowerCase a = toLowerCase b"
  unfolding equal_ignoring_case_def
  by (induction rule: list_all2_induct) (simp_all add: same_letter_lower)

lemma toLowerCase_char_fixed:
  assumes "c \<notin> set upper_case_letters"
  shows "toLowerCase_char c = c"
proof (rule ccontr)
  assume "toLowerCase_char c \<noteq> c"
  then have "(65 \<le> (of_char c :: nat) \<and> (of_char c :: nat) \<le> 90)
      \<or> (192 \<le> (of_char c :: nat) \<and> (of_char c :: nat) \<le> 214)
      \<or> (216 \<le> (of_char c :: nat) \<and> (of_char c :: nat) \<le> 222)"
    by (auto simp: toLowerCase_char_def Let_def split: if_splits)
  then have "(of_char c :: nat) \<in> set ([65..<91] @ [192..<215] @ [216..<223])"
    by (simp only: set_append set_upt Un_iff atLeastLessThan_iff) arith
  with upper_case_codes have "char_of (of_char c :: nat) \<in> set upper_case_letters"
    unfolding list_all_iff by blast
  with assms show False by simp
qed

lemma toLowerCase_fixed:
  "\<forall>c \<in> set s. c \<notin> set upper_case_letters \<Longrightarrow> toLowerCase s = s"
  by (induction s) (simp_all add: toLowerCase_char_fixed)

lemma isPermissionMatch_ignores_case:
  assumes "equal_ignoring_case a a'" and "equal_ignoring_case b b'"
  shows "isPermissionMatch a b = isPermissionMatch a' b'"
proof -
  from assms have "toLowerCase a = toLowerCase a'" and "toLowerCase b = toLowerCase b'"
    by (simp_all add: equal_ignoring_case_lower)
  then show ?thesis
    by (simp add: isPermissionMatch_def)
qed

text \<open>
  C2: \<open>isPermissionMatch a b\<close> holds exactly when, after lower-casing both strings and
  splitting them at the dots, at every position below the smaller number of pieces the
  two pieces are equal or one of them is \<open>*\<close>. Pieces beyond the shorter
  string are not looked at: \<open>users.update\<close> matches \<open>users.update.self.driver\<close>. Case is
  ignored: \<open>A.B\<close> matches \<open>a.b\<close>, and in general the result is the same for strings
  that are equal up to the case of their letters, while lower-casing leaves a string
  without upper-case letters as it is.
\<close>

theorem isPermissionMatch_spec:
  "(isPermissionMatch a b \<longleftrightarrow>
     (\<forall>i < min (length (split (CHR ''.'') (toLowerCase a)))
                (length (split (CHR ''.'') (toLowerCase b))).
        split (CHR ''.'') (toLowerCase a) ! i = split (CHR ''.'') (toLowerCase b) ! i
        \<or> split (CHR ''.'') (toLowerCase a) ! i = ''*''
        \<or> split (CHR ''.'') (toLowerCase b) ! i = ''*''))
   \<and> isPermissionMatch ''users.update'' ''users.update.self.driver''
   \<and> isPermissionMatch ''A.B'' ''a.b''
   \<and> (equal_ignoring_case a a' \<and> equal_ignoring_case b b'
        \<longrightarrow> isPermissionMatch a b = isPermissionMatch a' b')
   \<and> ((\<forall>c \<in> set s. c \<notin> set upper_case_letters) \<longrightarrow> toLowerCase s = s)"
proof (intro conjI impI)
  show "isPermissionMatch ''users.update'' ''users.update.self.driver''"
    by code_simp
  show "isPermissionMatch ''A.B'' ''a.b''"
    by code_simp
  show "isPermissionMatch a b = isPermissionMatch a' b'"
    if "equal_ignoring_case a a' \<and> equal_ignoring_case b b'"
    using that by (simp add: isPermissionMatch_ignores_case)
  show "toLowerCase s = s" if "\<forall>c \<in> set s. c \<notin> set upper_case_letters"
    using that by (rule toLowerCase_fixed)
qed (rule isPermissionMatch_iff)

theorem isPermissionMatch_spec_witness:
  "isPermissionMatch ''users.*.self'' ''users.delete.self''
   \<and> \<not> isPermissionMatch ''users.create.self'' ''users.delete.self''
   \<and> isPermissionMatch ''USERS.*.Self'' ''Users.DELETE.self''
   \<and> \<not> isPermissionMatch ''Users.Create.Self'' ''users.delete.self''
   \<and> isPermissionMatch [CHR 0xC9, CHR ''.'', CHR ''X''] [CHR 0xE9, CHR ''.'', CHR ''x'']
   \<and> toLowerCase ''users.delete.self'' = ''users.delete.self''"
proof -
  note inst_star = isPermissionMatch_spec
    [of "''users.*.self''" "''users.delete.self''" "''USERS.*.Self''" "''Users.DELETE.self''"
      "''users.delete.self''"]
  note inst_create = isPermissionMatch_spec
    [of "''users.create.self''" "''users.delete.self''" "''Users.Create.Self''"
      "''users.delete.self''"]
  note inst_accent = isPermissionMatch_spec
    [of "[CHR 0xE9, CHR ''.'', CHR ''x'']" "[CHR 0xE9, CHR ''.'', CHR ''x'']"
      "[CHR 0xC9, CHR ''.'', CHR ''X'']" "[CHR 0xE9, CHR ''.'', CHR ''x'']"]
  have lower: "toLowerCase ''users.delete.self'' = ''users.delete.self''"
  proof -
    have "\<forall>c \<in> set ''users.delete.self''. c \<notin> set upper_case_letters"
      by code_simp
    with inst_star [THEN conjunct2, THEN conjunct2, THEN conjunct2, THEN conjunct2]
    show ?thesis by blast
  qed
  have lower_star: "toLowerCase ''users.*.self'' = ''users.*.self''"
    and lower_create: "toLowerCase ''users.create.self'' = ''users.create.self''"
    by (rule toLowerCase_fixed, code_simp)+
  have pieces:
    "split (CHR ''.'') ''users.*.self'' = [''users'', ''*'', ''self'']"
    "split (CHR ''.'') ''users.create.self'' = [''users'', ''create'', ''self'']"
    "split (CHR ''.'') ''users.delete.self'' = [''users'', ''delete'', ''self'']"
    by simp_all
  have "\<forall>i < min (length [''users'', ''*'', ''self''])
                (length [''users'', ''delete'', ''self'']).
        [''users'', ''*'', ''self''] ! i = [''users'', ''delete'', ''self''] ! i
        \<or> [''users'', ''*'', ''self''] ! i = ''*''
        \<or> [''users'', ''delete'', ''self''] ! i = ''*''"
    by (simp add: All_less_Suc)
  then have yes: "isPermissionMatch ''users.*.self'' ''users.delete.self''"
    using inst_star [THEN conjunct1]
    unfolding lower lower_star pieces by blast
  have "\<not> (\<forall>i < min (length [''users'', ''create'', ''self''])
                (length [''users'', ''delete'', ''self'']).
        [''users'', ''create'', ''self''] ! i = [''users'', ''delete'', ''self''] ! i
        \<or> [''users'', ''create'', ''self''] ! i = ''*''
        \<or> [''users'', ''delete'', ''self''] ! i = ''*'')"
    by (simp add: All_less_Suc)
  then have no: "\<not> isPermissionMatch ''users.create.self'' ''users.delete.self''"
    using inst_create [THEN conjunct1]
    unfolding lower lower_create pieces by blast
  have "equal_ignoring_case ''users.*.self'' ''USERS.*.Self''
      \<and> equal_ignoring_case ''users.delete.self'' ''Users.DELETE.self''"
    by code_simp
  with inst_star [THEN conjunct2, THEN conjunct2, THEN conjunct2, THEN conjunct1] yes
  have yes_case: "isPermissionMatch ''USERS.*.Self'' ''Users.DELETE.self''"
    by blast
  have "equal_ignoring_case ''users.create.self'' ''Users.Create.Self''
      \<and> equal_ignoring_case ''users.delete.self'' ''users.delete.self''"
    by code_simp
  with inst_create [THEN conjunct2, THEN conjunct2, THEN conjunct2, THEN conjunct1] no
  have no_case: "\<not> isPermissionMatch ''Users.Create.Self'' ''users.delete.self''"
    by blast
  have "isPermissionMatch [CHR 0xE9, CHR ''.'', CHR ''x''] [CHR 0xE9, CHR ''.'', CHR ''x'']"
    using inst_accent [THEN conjunct1] by blast
  moreover have "equal_ignoring_case [CHR 0xE9, CHR ''.'', CHR ''x''] [CHR 0xC9, CHR ''.'', CHR ''X'']
      \<and> equal_ignoring_case [CHR 0xE9, CHR ''.'', CHR ''x''] [CHR 0xE9, CHR ''.'', CHR ''x'']"
    by code_simp
  ultimately
  have accent: "isPermissionMatch [CHR 0xC9, CHR ''.'', CHR ''X''] [CHR 0xE9, CHR ''.'', CHR ''x'']"
    using inst_accent [THEN conjunct2, THEN conjunct2, THEN conjunct2, THEN conjunct1]
    by blast
  from yes no yes_case no_case accent lower show ?thesis
    by (intro conjI)
qed

section \<open>Properties of template expansion\<close>

lemma find_first_Some:
  "find_first pat s = Some (front, back) \<Longrightarrow> s = front @ pat @ back"
proof (induction s arbitrary: front)
  case Nil
  then show ?case by (simp split: if_splits)
next
  case (Cons c cs)
  show ?case
  proof (cases "take (length pat) (c # cs) = pat")
    case True
    with Cons.prems have "front = []" "back = drop (length pat) (c # cs)" by auto
    with True show ?thesis by (metis append_Nil append_take_drop_id)
  next
    case False
    with Cons.prems obtain f' where "find_first pat cs = Some (f', back)" "front = c # f'"
      by (auto split: option.splits)
    with Cons.IH show ?thesis by simp
  qed
qed

lemma find_first_least:
  "find_first pat s = Some (front, back) \<Longrightarrow> s = f' @ pat @ b' \<Longrightarrow> length front \<le> length f'"
proof (induction s arbitrary: front f')
  case Nil
  then show ?case by (simp split: if_splits)
next
  case (Cons c cs)
  show ?case
  proof (cases "take (length pat) (c # cs) = pat")
    case True
    with Cons.prems(1) have "front = []" by simp
    then show ?thesis by simp
  next
    case False
    with Cons.prems(1) obtain f0 where f0: "find_first pat cs = Some (f0, back)" "front = c # f0"
      by (auto split: option.splits)
    from False Cons.prems(2) have "f' \<noteq> []" by auto
    then obtain f1 where f1: "f' = c # f1" "cs = f1 @ pat @ b'"
      using Cons.prems(2) by (cases f') auto
    from Cons.IH [OF f0(1) f1(2)] f0(2) f1(1) show ?thesis by simp
  qed
qed

lemma find_first_None: "find_first pat s = None \<Longrightarrow> s \<noteq> f' @ pat @ b'"
proof (induction s arbitrary: f')
  case Nil
  then show ?case by (simp split: if_splits)
next
  case (Cons c cs)
  from Cons.prems have no: "take (length pat) (c # cs) \<noteq> pat" and rest: "find_first pat cs = None"
    by (auto split: if_splits option.splits)
  show ?case
  proof
    assume eq: "c # cs = f' @ pat @ b'"
    with no have "f' \<noteq> []" by auto
    then obtain f1 where "f' = c # f1" "cs = f1 @ pat @ b'"
      using eq by (cases f') auto
    with Cons.IH [OF rest] show False by blast
  qed
qed

lemma substitution_literal: "\<not> has_pattern v \<Longrightarrow> substitution m f b v = v"
  by (induction m f b v rule: substitution.induct) auto

lemma replace_literal_first:
  "replace_literal s pat v =
     (case find_first pat s of None \<Rightarrow> s | Some (front, back) \<Rightarrow> front @ v @ back)"
  by (induction s) (auto split: option.splits)

lemma replace_is_literal:
  "\<not> has_pattern v \<Longrightarrow> replace s pat v = replace_literal s pat v"
  by (simp add: replace_def replace_literal_first substitution_literal split: option.splits)

lemma no_dollar_no_pattern: "CHR ''$'' \<notin> set v \<Longrightarrow> \<not> has_pattern v"
  by (induction v rule: has_pattern.induct) auto

text \<open>
  The replacement is made at the first occurrence: no occurrence of the pattern starts
  further left.
\<close>

lemma replace_literal_at_first_occurrence:
  assumes "s = front @ pat @ back"
    and "\<And>f' b'. s = f' @ pat @ b' \<Longrightarrow> length front \<le> length f'"
  shows "replace_literal s pat v = front @ v @ back"
proof (cases "find_first pat s")
  case None
  with assms(1) show ?thesis
    using find_first_None [of pat s front "back"] by simp
next
  case (Some found)
  obtain f0 b0 where found: "found = (f0, b0)" by (cases found)
  with Some have s: "s = f0 @ pat @ b0" and least: "length f0 \<le> length front"
    using find_first_Some [of pat s f0 b0] find_first_least [of pat s f0 b0 front "back"] assms(1)
    by simp_all
  from assms(2) [OF s] least have "length f0 = length front" by simp
  with s assms(1) have "f0 = front" "b0 = back" by auto
  with Some found show ?thesis by (simp add: replace_literal_first)
qed

lemma replace_literal_no_occurrence:
  assumes "\<And>f' b'. s \<noteq> f' @ pat @ b'"
  shows "replace_literal s pat v = s"
proof (cases "find_first pat s")
  case None
  then show ?thesis by (simp add: replace_literal_first)
next
  case (Some found)
  obtain f0 b0 where "found = (f0, b0)" by (cases found)
  with Some assms show ?thesis
    using find_first_Some [of pat s f0 b0] by simp
qed

lemma length_concat_map_map:
  "length (concat (map (\<lambda>p. map (h p) vals) ps)) = length ps * length vals"
  by (induction ps) simp_all

lemma length_fold_map:
  "length (fold (\<lambda>(key, val) ps. map (h key val) ps) entries ps) = length ps"
  by (induction entries arbitrary: ps) (auto simp: case_prod_beta)

lemma length_fold_concat:
  "length (fold (\<lambda>(key, vals) ps. concat (map (\<lambda>p. map (h key p) vals) ps)) entries ps)
     = length ps * prod_list (map (\<lambda>(key, vals). length vals) entries)"
proof (induction entries arbitrary: ps)
  case Nil
  show ?case by simp
next
  case (Cons e entries)
  obtain key vals where e: "e = (key, vals)" by (cases e)
  show ?case
    by (simp add: e Cons.IH length_concat_map_map mult.assoc)
qed

lemma length_fillPermissionTemplate:
  "length (fillPermissionTemplate userId template options) =
     (case all options of
        None \<Rightarrow> 1
      | Some entries \<Rightarrow> prod_list (map (\<lambda>(key, vals). length vals) entries))"
  by (simp add: fillPermissionTemplate_def Let_def length_fold_map length_fold_concat
      split: option.splits)

text \<open>
  C10: the number of permissions that \<open>fillPermissionTemplate\<close> returns is the product
  of the lengths of the value lists of \<open>options.all\<close>, and 1 when \<open>all\<close> is absent. The
  template, \<open>targetId\<close> and \<open>static\<close> do not occur on the right-hand side: the \<open>targetId\<close>
  and \<open>static\<close> steps keep the length, whether or not a placeholder is found.
\<close>

theorem fillPermissionTemplate_length:
  "length (fillPermissionTemplate userId template options) =
     (case all options of
        None \<Rightarrow> 1
      | Some entries \<Rightarrow> prod_list (map (\<lambda>(key, vals). length vals) entries))"
proof (cases "all options")
  case None
  then show ?thesis
    by (simp add: fillPermissionTemplate_def Let_def length_fold_map split: option.splits)
next
  case (Some entries)
  then show ?thesis
    by (simp add: fillPermissionTemplate_def Let_def length_fold_map length_fold_concat
        split: option.splits)
qed

lemma fillPermissionTemplate_all_Nil:
  "fillPermissionTemplate userId template (options\<lparr>all := Some []\<rparr>)
     = fillPermissionTemplate userId template (options\<lparr>all := None\<rparr>)"
  by (simp add: fillPermissionTemplate_def)

lemma fillPermissionTemplate_all_snoc:
  "fillPermissionTemplate userId template (options\<lparr>all := Some (entries @ [(key, vals)])\<rparr>)
     = concat (map (\<lambda>permission. map (\<lambda>val. replace permission (placeholder key) val) vals)
         (fillPermissionTemplate userId template (options\<lparr>all := Some entries\<rparr>)))"
  by (simp add: fillPermissionTemplate_def Let_def)

lemma fold_replace_literal:
  "\<forall>(key, vals) \<in> set entries. \<forall>val \<in> set vals. \<not> has_pattern val \<Longrightarrow>
   fold (\<lambda>(key, vals) current.
           concat (map (\<lambda>permission. map (\<lambda>val. replace permission (placeholder key) val) vals)
             current))
     entries current
   = fan_out_literal entries current"
proof (induction entries arbitrary: current)
  case Nil
  show ?case by (simp add: fan_out_literal_def)
next
  case (Cons e entries)
  obtain key vals where e: "e = (key, vals)" by (cases e)
  from Cons.prems e have vals: "\<forall>val \<in> set vals. \<not> has_pattern val" by simp
  have step: "map (\<lambda>val. replace permission (placeholder key) val) vals
      = map (\<lambda>val. replace_literal permission (placeholder key) val) vals" for permission
    using vals by (simp add: replace_is_literal)
  from Cons.prems have rest: "\<forall>(key, vals) \<in> set entries. \<forall>val \<in> set vals. \<not> has_pattern val"
    by simp
  show ?case
    using Cons.IH [OF rest] by (simp add: e step fan_out_literal_def)
qed

lemma fillPermissionTemplate_literal:
  "\<forall>(key, vals) \<in> set entries. \<forall>val \<in> set vals. \<not> has_pattern val \<Longrightarrow>
   fillPermissionTemplate userId template (options\<lparr>all := Some entries\<rparr>)
     = fan_out_literal entries (fillPermissionTemplate userId template (options\<lparr>all := None\<rparr>))"
  by (simp add: fillPermissionTemplate_def Let_def fold_replace_literal)

lemma readme_example:
  "fillPermissionTemplate (Num 5) ''users.<action>.<target>.<role>''
     \<lparr>targetId = Some (Num 5), static = Some [(''action'', ''update'')],
      all = Some [(''role'', [''driver'', ''supervisor''])]\<rparr>
   = [''users.update.self.driver'', ''users.update.self.supervisor'']"
  by (simp add: fillPermissionTemplate_def replace_def placeholder_def)

text \<open>
  C3: the call of the README returns exactly \<open>users.update.self.driver\<close> and
  \<open>users.update.self.supervisor\<close>, in this order, and for values without a replacement
  pattern the \<open>all\<close> step is the fan-out of the specification (the lemmas above). For a
  value that holds a replacement pattern the value is not what is inserted: with the
  value \<open>$&\<close> under the key \<open>role\<close> the placeholder is replaced by the matched text, that
  is by itself, where the specification puts the value. The \<open>static\<close> step does the
  same: with \<open>$&\<close> for \<open>action\<close> the placeholder \<open><action>\<close> stays, and of the two
  occurrences of \<open><role>\<close> only the first is replaced.
\<close>

theorem fillPermissionTemplate_replacement_pattern:
  "fillPermissionTemplate (Num 5) ''users.<action>.<target>.<role>''
     \<lparr>targetId = Some (Num 5), static = Some [(''action'', ''update'')],
      all = Some [(''role'', [''driver'', ''supervisor''])]\<rparr>
   = [''users.update.self.driver'', ''users.update.self.supervisor'']
   \<and> fillPermissionTemplate (Num 5) ''users.<role>''
       \<lparr>targetId = None, static = None, all = Some [(''role'', [''$&''])]\<rparr>
     = [''users.<role>'']
   \<and> fan_out_literal [(''role'', [''$&''])]
       (fillPermissionTemplate (Num 5) ''users.<role>''
          \<lparr>targetId = None, static = None, all = None\<rparr>)
     = [''users.$&'']
   \<and> fillPermissionTemplate (Num 5) ''<action>.<role>.<role>''
       \<lparr>targetId = None, static = Some [(''action'', ''$&'')],
        all = Some [(''role'', [''driver'', ''supervisor''])]\<rparr>
     = [''<action>.driver.<role>'', ''<action>.supervisor.<role>'']"
proof (intro conjI)
  show "fillPermissionTemplate (Num 5) ''users.<action>.<target>.<role>''
     \<lparr>targetId = Some (Num 5), static = Some [(''action'', ''update'')],
      all = Some [(''role'', [''driver'', ''supervisor''])]\<rparr>
   = [''users.update.self.driver'', ''users.update.self.supervisor'']"
    by (rule readme_example)
  show "fillPermissionTemplate (Num 5) ''users.<role>''
       \<lparr>targetId = None, static = None, all = Some [(''role'', [''$&''])]\<rparr>
     = [''users.<role>'']"
    by (simp add: fillPermissionTemplate_def replace_def placeholder_def)
  show "fan_out_literal [(''role'', [''$&''])]
       (fillPermissionTemplate (Num 5) ''users.<role>''
          \<lparr>targetId = None, static = None, all = None\<rparr>)
     = [''users.$&'']"
    by (simp add: fillPermissionTemplate_def fan_out_literal_def placeholder_def)
  show "fillPermissionTemplate (Num 5) ''<action>.<role>.<role>''
       \<lparr>targetId = None, static = Some [(''action'', ''$&'')],
        all = Some [(''role'', [''driver'', ''supervisor''])]\<rparr>
     = [''<action>.driver.<role>'', ''<action>.supervisor.<role>'']"
    by (simp add: fillPermissionTemplate_def replace_def placeholder_def)
qed

lemma prod_list_zero:
  "(key, []) \<in> set entries \<Longrightarrow> prod_list (map (\<lambda>(key, vals). length vals) entries) = 0"
  by (induction entries) auto

text \<open>
  C9: when \<open>options.all\<close> maps some key to an empty list, \<open>fillPermissionTemplate\<close>
  returns no permission at all, and \<open>isAuthorized\<close> returns true for every user, every
  template and every registry, without a single call of \<open>hasPermission\<close>.
\<close>

theorem empty_value_list_authorizes:
  assumes "all options = Some entries" and "(key, []) \<in> set entries"
  shows "fillPermissionTemplate userId template options = []
         \<and> isAuthorized n reg u template options = Some (Inr True)"
proof -
  have "length (fillPermissionTemplate i template options) = 0" for i
    using assms by (simp add: length_fillPermissionTemplate prod_list_zero)
  then have "fillPermissionTemplate i template options = []" for i
    by simp
  then show ?thesis
    by (simp add: isAuthorized_def)
qed

theorem empty_value_list_authorizes_witness:
  "fillPermissionTemplate (Num 5) ''users.<action>.<role>''
     \<lparr>targetId = None, static = None, all = Some [(''action'', [''update'']), (''role'', [])]\<rparr> = []
   \<and> isAuthorized 0 initial \<lparr>user_id = Num 5, roleIds = []\<rparr> ''users.<action>.<role>''
     \<lparr>targetId = None, static = None, all = Some [(''action'', [''update'']), (''role'', [])]\<rparr>
     = Some (Inr True)"
  using empty_value_list_authorizes
    [of "\<lparr>targetId = None, static = None, all = Some [(''action'', [''update'']), (''role'', [])]\<rparr>"
        "[(''action'', [''update'']), (''role'', [])]" "''role''" "Num 5" "''users.<action>.<role>''"
        0 initial "\<lparr>user_id = Num 5, roleIds = []\<rparr>"]
  by simp

section \<open>Properties of the permission checks\<close>

lemma every_call_True_iff:
  "every_call f xs = Some (Inr True) \<longleftrightarrow> (\<forall>x \<in> set xs. f x = Some (Inr True))"
  by (induction xs) (auto split: option.splits sum.splits)

lemma every_call_False:
  "\<forall>q \<in> set ps. f q = Some (Inr True) \<Longrightarrow> f p = Some (Inr False) \<Longrightarrow>
   every_call f (ps @ p # qs) = Some (Inr False)"
  by (induction ps) auto

lemma some_call_True:
  "some_call f xs = Some (Inr True) \<Longrightarrow> \<exists>x \<in> set xs. f x = Some (Inr True)"
  by (induction xs) (auto split: option.splits sum.splits if_splits)

lemma some_call_False_iff:
  "some_call f xs = Some (Inr False) \<longleftrightarrow> (\<forall>x \<in> set xs. f x = Some (Inr False))"
  by (induction xs) (auto split: option.splits sum.splits)

lemma some_call_returns:
  "\<forall>x \<in> set xs. f x \<noteq> None \<Longrightarrow> some_call f xs \<noteq> None"
  by (induction xs) (auto split: option.splits sum.splits)

lemma hasPermission_role_grants:
  "hasPermission n reg (RoleId roleId) permission = Some (Inr b) \<Longrightarrow>
   b = role_grants reg permission roleId"
proof (induction n arbitrary: roleId b)
  case 0
  then show ?case by simp
next
  case (Suc n)
  show ?case
  proof (cases "roleId = []")
    case True
    with Suc.prems have "\<not> b" by simp
    moreover from True have "\<not> role_grants reg permission roleId"
      by (auto elim: role_grants.cases)
    ultimately show ?thesis by simp
  next
    case nonempty: False
    show ?thesis
    proof (cases "\<exists>role. get_property (roleMap reg) roleId = RoleObj role")
      case False
      with Suc.prems nonempty have "\<not> b"
        by (cases "get_property (roleMap reg) roleId") (auto split: if_splits)
      moreover from False have "\<not> role_grants reg permission roleId"
        by (auto elim: role_grants.cases)
      ultimately show ?thesis by simp
    next
      case True
      then obtain role where role: "get_property (roleMap reg) roleId = RoleObj role" ..
      show ?thesis
      proof (cases "list_ex (isPermissionMatch permission) (permissions role)")
        case True
        with Suc.prems nonempty role have "b" by simp
        moreover from True obtain rp where "rp \<in> set (permissions role)" "isPermissionMatch permission rp"
          by (auto simp: list_ex_iff)
        with nonempty role have "role_grants reg permission roleId"
          by (rule role_grants.held)
        ultimately show ?thesis by simp
      next
        case nomatch: False
        with Suc.prems nonempty role
        have loop: "some_call (\<lambda>c. hasPermission n reg (RoleId c) permission) (inherits role)
                      = Some (Inr b)"
          by simp
        show ?thesis
        proof (cases b)
          case True
          with loop obtain c where c: "c \<in> set (inherits role)"
            "hasPermission n reg (RoleId c) permission = Some (Inr True)"
            by (auto dest: some_call_True)
          from Suc.IH [OF c(2)] have "role_grants reg permission c" by simp
          with nonempty role c(1) have "role_grants reg permission roleId"
            by (rule role_grants.inherited)
          with True show ?thesis by simp
        next
          case False
          with loop have all: "\<forall>c \<in> set (inherits role).
              hasPermission n reg (RoleId c) permission = Some (Inr False)"
            by (simp add: some_call_False_iff)
          have "\<not> role_grants reg permission roleId"
          proof
            assume "role_grants reg permission roleId"
            then show False
            proof (cases rule: role_grants.cases)
              case (held role' rp)
              with role nomatch show False by (auto simp: list_ex_iff)
            next
              case (inherited role' c)
              with role all have "hasPermission n reg (RoleId c) permission = Some (Inr False)"
                by auto
              from Suc.IH [OF this] inherited show False by simp
            qed
          qed
          with False show ?thesis by simp
        qed
      qed
    qed
  qed
qed

lemma hasPermission_user_grants:
  "hasPermission n reg (User u) permission = Some (Inr b) \<Longrightarrow>
   b = (\<exists>roleId \<in> set (roleIds u). role_grants reg permission roleId)"
proof (cases n)
  case 0
  assume "hasPermission n reg (User u) permission = Some (Inr b)"
  with 0 show ?thesis by simp
next
  case (Suc m)
  assume "hasPermission n reg (User u) permission = Some (Inr b)"
  with Suc have loop:
    "some_call (\<lambda>r. hasPermission m reg (RoleId r) permission) (roleIds u) = Some (Inr b)"
    by simp
  show ?thesis
  proof (cases b)
    case True
    with loop obtain r where "r \<in> set (roleIds u)"
      "hasPermission m reg (RoleId r) permission = Some (Inr True)"
      by (auto dest: some_call_True)
    with True show ?thesis
      by (auto dest: hasPermission_role_grants)
  next
    case False
    with loop have "\<forall>r \<in> set (roleIds u).
        hasPermission m reg (RoleId r) permission = Some (Inr False)"
      by (simp add: some_call_False_iff)
    with False show ?thesis
      by (auto dest: hasPermission_role_grants)
  qed
qed

section \<open>Properties of the property reads and writes\<close>

lemma set_property_setter:
  "k = ''__proto__'' \<Longrightarrow> own obj ''__proto__'' = None \<Longrightarrow>
   set_property obj k r = obj\<lparr>proto := Some r\<rparr>"
  by (simp add: set_property_def)

lemma set_property_entry:
  "k \<noteq> ''__proto__'' \<or> own obj ''__proto__'' \<noteq> None \<Longrightarrow>
   set_property obj k r = obj\<lparr>own := (own obj)(k \<mapsto> r)\<rparr>"
  by (auto simp: set_property_def)

lemma get_property_entry: "own obj k = Some r \<Longrightarrow> get_property obj k = RoleObj r"
  by (simp add: get_property_def)

lemma get_property_inherited:
  "own obj k = None \<Longrightarrow>
   get_property obj k =
     (case proto obj of
        None \<Rightarrow> if k \<in> set object_prototype_keys then Builtin else Undefined
      | Some r \<Rightarrow>
          if k = ''__proto__'' then RoleObj r
          else (case role_property r k of
                  Some v \<Rightarrow> v
                | None \<Rightarrow> if k \<in> set object_prototype_keys then Builtin else Undefined))"
  by (simp add: get_property_def)

lemma get_property_cong:
  "own a k = own b k \<Longrightarrow> proto a = proto b \<Longrightarrow> get_property a k = get_property b k"
  by (cases "own b k"; cases "proto b") (simp_all add: get_property_def)

lemma get_property_other_entry:
  "k' \<noteq> k \<Longrightarrow> get_property (obj\<lparr>own := (own obj)(k \<mapsto> r)\<rparr>) k' = get_property obj k'"
  by (rule get_property_cong) simp_all

lemma set_property_absorb:
  "set_property (set_property obj k r) k r' = set_property obj k r'"
proof (cases "k = ''__proto__'' \<and> own obj ''__proto__'' = None")
  case True
  then show ?thesis by (simp add: set_property_setter)
next
  case False
  then show ?thesis by (auto simp: set_property_entry)
qed

lemma set_property_commute:
  assumes "k \<noteq> k'"
  shows "set_property (set_property obj k r) k' r' = set_property (set_property obj k' r') k r"
proof (cases "own obj ''__proto__''")
  case (Some v)
  with assms show ?thesis
    by (simp add: set_property_entry fun_upd_twist)
next
  case None
  show ?thesis
  proof (cases "k = ''__proto__''")
    case True
    with assms None show ?thesis
      by (simp add: set_property_setter set_property_entry)
  next
    case k: False
    show ?thesis
    proof (cases "k' = ''__proto__''")
      case True
      with assms None show ?thesis
        by (simp add: set_property_setter set_property_entry)
    next
      case False
      with assms k show ?thesis
        by (simp add: set_property_entry fun_upd_twist)
    qed
  qed
qed

lemma get_property_set_same: "get_property (set_property obj k r) k = RoleObj r"
proof (cases "k = ''__proto__'' \<and> own obj ''__proto__'' = None")
  case True
  then show ?thesis by (simp add: set_property_setter get_property_inherited)
next
  case False
  then show ?thesis by (auto simp: set_property_entry get_property_entry)
qed

lemma has_property_entry: "own obj k = Some r \<Longrightarrow> has_property obj k"
  by (simp add: has_property_def)

lemma has_property_builtin: "k \<in> set object_prototype_keys \<Longrightarrow> has_property obj k"
  by (cases "own obj k") (simp_all add: has_property_def)

lemma has_property_proto: "has_property obj ''__proto__''"
  by (rule has_property_builtin) (simp add: object_prototype_keys_def)

lemma has_property_set_same: "has_property (set_property obj k r) k"
proof (cases "k = ''__proto__'' \<and> own obj ''__proto__'' = None")
  case True
  then show ?thesis by (simp add: has_property_proto)
next
  case False
  then have "own (set_property obj k r) k = Some r"
    by (auto simp: set_property_entry)
  then show ?thesis by (rule has_property_entry)
qed

lemma get_property_set_other:
  assumes "k' \<noteq> k" and "own obj k' \<noteq> None \<or> k' = ''__proto__''"
  shows "get_property (set_property obj k r) k' = get_property obj k'"
    and "own (set_property obj k r) k' \<noteq> None \<or> k' = ''__proto__''"
proof -
  show "get_property (set_property obj k r) k' = get_property obj k'"
  proof (cases "k = ''__proto__'' \<and> own obj ''__proto__'' = None")
    case True
    with assms obtain w where "own obj k' = Some w" by auto
    with True show ?thesis
      by (simp add: set_property_setter get_property_entry)
  next
    case False
    then have "set_property obj k r = obj\<lparr>own := (own obj)(k \<mapsto> r)\<rparr>"
      by (auto simp: set_property_entry)
    with assms(1) show ?thesis
      by (simp add: get_property_other_entry)
  qed
  from assms show "own (set_property obj k r) k' \<noteq> None \<or> k' = ''__proto__''"
    by (simp add: set_property_def)
qed

lemma role_property_not_role: "role_property r k \<noteq> Some (RoleObj v)"
  by (simp add: role_property_def)

lemma get_property_set_RoleObj:
  assumes "get_property (set_property obj k r) k' = RoleObj v"
  shows "(v = r \<and> k = k') \<or> get_property obj k' = RoleObj v"
proof (cases "k = k'")
  case True
  with assms show ?thesis by (simp add: get_property_set_same)
next
  case differ: False
  show ?thesis
  proof (cases "k = ''__proto__'' \<and> own obj ''__proto__'' = None")
    case False
    then have "set_property obj k r = obj\<lparr>own := (own obj)(k \<mapsto> r)\<rparr>"
      by (auto simp: set_property_entry)
    with differ assms show ?thesis
      by (simp add: get_property_other_entry)
  next
    case True
    with differ have k': "k' \<noteq> ''__proto__''" by simp
    from True have set: "set_property obj k r = obj\<lparr>proto := Some r\<rparr>"
      by (simp add: set_property_setter)
    show ?thesis
    proof (cases "own obj k'")
      case (Some w)
      with set assms show ?thesis
        by (simp add: get_property_entry)
    next
      case None
      with set k' assms have "(case role_property r k' of
            Some v \<Rightarrow> v
          | None \<Rightarrow> if k' \<in> set object_prototype_keys then Builtin else Undefined) = RoleObj v"
        by (simp add: get_property_inherited)
      then have False
        using role_property_not_role [of r k' v]
        by (cases "role_property r k'") (auto split: if_splits)
      then show ?thesis ..
    qed
  qed
qed

section \<open>Lookups that find no role\<close>

lemma get_property_absent:
  assumes "\<not> has_property obj k"
  shows "get_property obj k = Undefined"
proof -
  from assms have own: "own obj k = None"
    by (cases "own obj k") (simp_all add: has_property_def)
  with assms have keys: "k \<notin> set object_prototype_keys"
    and inherited: "case proto obj of None \<Rightarrow> True | Some r \<Rightarrow> role_property r k = None"
    by (simp_all add: has_property_def split: option.splits)
  from keys have "k \<noteq> ''__proto__''"
    by (auto simp: object_prototype_keys_def)
  with own keys inherited show ?thesis
    by (cases "proto obj") (simp_all add: get_property_inherited)
qed

lemma no_subject_is_false: "hasPermission (Suc n) reg NoSubject permission = Some (Inr False)"
  by simp

lemma absent_role_is_null: "\<not> has_property (roleMap reg) roleId \<Longrightarrow> getRole reg roleId = Null"
  by (simp add: getRole_def)

lemma absent_role_is_false:
  "\<not> has_property (roleMap reg) roleId \<Longrightarrow>
   hasPermission (Suc n) reg (RoleId roleId) permission = Some (Inr False)"
  by (simp add: get_property_absent)

lemma absent_role_grants_nothing:
  "\<not> has_property (roleMap reg) roleId \<Longrightarrow> \<not> role_grants reg permission roleId"
  by (auto simp: get_property_absent elim: role_grants.cases)


lemma no_match_edit:
  "\<not> list_ex (isPermissionMatch ''trips.edit'') (permissions driver)"
  by code_simp

text \<open>
  C5: a lookup that finds no role should give false or null and not throw. It does for
  \<open>null\<close> and for an identifier that is no property of \<open>roleMap\<close> at all. It does not
  for an identifier that \<open>roleMap\<close> inherits from \<open>Object.prototype\<close>: no role
  \<open>toString\<close> is loaded, yet \<open>getRole\<close> returns the inherited function instead of null,
  \<open>hasPermission\<close> throws a \<open>TypeError\<close> on it, and so does the check of a role whose
  \<open>inherits\<close> list names \<open>constructor\<close>.
\<close>

theorem inherited_property_taken_for_role:
  "getRole (loadRoles initial [driver, supervisor]) ''toString'' = Builtin
   \<and> hasPermission (Suc n) (loadRoles initial [driver, supervisor]) (RoleId ''toString'')
       permission
     = Some (Inl TypeError)
   \<and> hasPermission (Suc (Suc n)) (loadRoles initial [driver\<lparr>inherits := [''constructor'']\<rparr>])
       (RoleId ''driver'') ''trips.edit''
     = Some (Inl TypeError)"
proof (intro conjI)
  have "own (roleMap (loadRoles initial [driver, supervisor])) ''toString'' = None"
    and "proto (roleMap (loadRoles initial [driver, supervisor])) = None"
    by (simp_all add: set_property_def initial_def driver_def supervisor_def)
  then have read: "get_property (roleMap (loadRoles initial [driver, supervisor])) ''toString''
      = Builtin"
    by (simp add: get_property_inherited object_prototype_keys_def)
  have "has_property (roleMap (loadRoles initial [driver, supervisor])) ''toString''"
    by (rule has_property_builtin) (simp add: object_prototype_keys_def)
  with read show "getRole (loadRoles initial [driver, supervisor]) ''toString'' = Builtin"
    by (simp add: getRole_def)
  from read show "hasPermission (Suc n) (loadRoles initial [driver, supervisor])
      (RoleId ''toString'') permission = Some (Inl TypeError)"
    by simp
  have "get_property (roleMap (loadRoles initial [driver\<lparr>inherits := [''constructor'']\<rparr>]))
      ''driver'' = RoleObj (driver\<lparr>inherits := [''constructor'']\<rparr>)"
    by (simp add: get_property_def set_property_def initial_def driver_def)
  moreover have "get_property (roleMap (loadRoles initial [driver\<lparr>inherits := [''constructor'']\<rparr>]))
      ''constructor'' = Builtin"
    by (simp add: get_property_def set_property_def initial_def driver_def
        object_prototype_keys_def)
  ultimately show "hasPermission (Suc (Suc n))
      (loadRoles initial [driver\<lparr>inherits := [''constructor'']\<rparr>])
      (RoleId ''driver'') ''trips.edit'' = Some (Inl TypeError)"
    using no_match_edit by simp
qed

section \<open>Termination of the permission check\<close>

lemma some_call_mono:
  "(\<And>x r. x \<in> set xs \<Longrightarrow> f x = Some r \<Longrightarrow> g x = Some r) \<Longrightarrow>
   some_call f xs = Some r \<Longrightarrow> some_call g xs = Some r"
proof (induction xs)
  case Nil
  then show ?case by simp
next
  case (Cons x xs)
  from Cons.prems(2) obtain rx where rx: "f x = Some rx"
    by (cases "f x") auto
  with Cons.prems(1) have gx: "g x = Some rx" by simp
  show ?case
  proof (cases rx)
    case (Inl e)
    with rx Cons.prems(2) have "r = Inl e" by simp
    with Inl gx show ?thesis by simp
  next
    case (Inr b)
    show ?thesis
    proof (cases b)
      case True
      with Inr rx Cons.prems(2) have "r = Inr True" by simp
      with True Inr gx show ?thesis by simp
    next
      case False
      with Inr rx Cons.prems(2) have "some_call f xs = Some r" by simp
      with Cons.IH Cons.prems(1) have "some_call g xs = Some r" by simp
      with False Inr gx show ?thesis by simp
    qed
  qed
qed

lemma hasPermission_Suc:
  "hasPermission n reg s p = Some r \<Longrightarrow> hasPermission (Suc n) reg s p = Some r"
proof (induction n arbitrary: s r)
  case 0
  then show ?case by simp
next
  case (Suc n)
  show ?case
  proof (cases s)
    case NoSubject
    with Suc.prems show ?thesis by simp
  next
    case (User u)
    with Suc.prems have "some_call (\<lambda>c. hasPermission n reg (RoleId c) p) (roleIds u) = Some r"
      by simp
    then have "some_call (\<lambda>c. hasPermission (Suc n) reg (RoleId c) p) (roleIds u) = Some r"
      by (rule some_call_mono [rotated]) (rule Suc.IH)
    with User show ?thesis by simp
  next
    case (RoleId k)
    show ?thesis
    proof (cases "\<exists>role. k \<noteq> [] \<and> get_property (roleMap reg) k = RoleObj role
        \<and> \<not> list_ex (isPermissionMatch p) (permissions role)")
      case False
      with Suc.prems RoleId show ?thesis
        by (cases "get_property (roleMap reg) k") (auto split: if_splits)
    next
      case True
      then obtain role where role: "k \<noteq> []" "get_property (roleMap reg) k = RoleObj role"
        "\<not> list_ex (isPermissionMatch p) (permissions role)"
        by blast
      with Suc.prems RoleId
      have "some_call (\<lambda>c. hasPermission n reg (RoleId c) p) (inherits role) = Some r"
        by simp
      then have "some_call (\<lambda>c. hasPermission (Suc n) reg (RoleId c) p) (inherits role) = Some r"
        by (rule some_call_mono [rotated]) (rule Suc.IH)
      with role RoleId show ?thesis by simp
    qed
  qed
qed

lemma hasPermission_mono:
  "hasPermission n reg s p = Some r \<Longrightarrow> n \<le> m \<Longrightarrow> hasPermission m reg s p = Some r"
  by (induction m) (auto simp: le_Suc_eq dest: hasPermission_Suc)

lemma get_property_RoleObj:
  "get_property obj k = RoleObj role \<Longrightarrow> own obj k \<noteq> None \<or> k = ''__proto__''"
  by (auto simp: get_property_def role_property_def split: option.splits if_splits)

lemma finite_inherits_graph:
  assumes "finite (dom (own (roleMap reg)))"
  shows "finite (inherits_graph reg)"
proof -
  let ?P = "dom (own (roleMap reg)) \<union> {''__proto__''}"
  let ?children = "\<lambda>k. case get_property (roleMap reg) k of
      RoleObj role \<Rightarrow> set (inherits role) | _ \<Rightarrow> {}"
  have "inherits_graph reg \<subseteq> (\<Union>k \<in> ?P. (\<lambda>c. (c, k)) ` ?children k)"
  proof
    fix e
    assume "e \<in> inherits_graph reg"
    then obtain c k role where e: "e = (c, k)"
      and role: "get_property (roleMap reg) k = RoleObj role" and c: "c \<in> set (inherits role)"
      by (auto simp: inherits_graph_def)
    from role have "k \<in> ?P" by (auto dest: get_property_RoleObj)
    moreover from role c have "c \<in> ?children k" by simp
    ultimately show "e \<in> (\<Union>k \<in> ?P. (\<lambda>c. (c, k)) ` ?children k)"
      unfolding e by blast
  qed
  moreover have "finite (?children k)" for k
    by (cases "get_property (roleMap reg) k") simp_all
  with assms have "finite (\<Union>k \<in> ?P. (\<lambda>c. (c, k)) ` ?children k)"
    by blast
  ultimately show ?thesis by (rule finite_subset)
qed

lemma finite_dom_loadRoles:
  "finite (dom (own (roleMap reg))) \<Longrightarrow> finite (dom (own (roleMap (loadRoles reg rs))))"
  by (induction rs arbitrary: reg) (simp_all add: set_property_def)

lemma finite_loaded_graph: "finite (inherits_graph (loadRoles initial rs))"
  by (rule finite_inherits_graph, rule finite_dom_loadRoles) (simp add: initial_def)

lemma bound_for_list:
  "\<forall>x \<in> set xs. \<exists>N. \<forall>n\<ge>N. Q x (n::nat) \<Longrightarrow> \<exists>M. \<forall>x \<in> set xs. \<forall>n\<ge>M. Q x n"
proof (induction xs)
  case Nil
  show ?case by simp
next
  case (Cons x xs)
  then obtain M where M: "\<forall>y \<in> set xs. \<forall>n\<ge>M. Q y n" by auto
  from Cons.prems obtain N where N: "\<forall>n\<ge>N. Q x n" by auto
  have "\<forall>y \<in> set (x # xs). \<forall>n\<ge>max N M. Q y n"
    using M N by auto
  then show ?case ..
qed

lemma bound_for_finite:
  "finite S \<Longrightarrow> \<forall>x \<in> S. \<exists>N. \<forall>n\<ge>N. Q x (n::nat) \<Longrightarrow> \<exists>M. \<forall>x \<in> S. \<forall>n\<ge>M. Q x n"
proof (induction S rule: finite_induct)
  case empty
  show ?case by simp
next
  case (insert x S)
  then obtain M where M: "\<forall>y \<in> S. \<forall>n\<ge>M. Q y n" by auto
  from insert.prems obtain N where N: "\<forall>n\<ge>N. Q x n" by auto
  have "\<forall>y \<in> insert x S. \<forall>n\<ge>max N M. Q y n"
    using M N by auto
  then show ?case ..
qed

lemma hasPermission_role_returns:
  assumes "wf (inherits_graph reg)"
  shows "\<exists>N. \<forall>n\<ge>N. \<forall>p. hasPermission n reg (RoleId k) p \<noteq> None"
  using assms
proof (induction k rule: wf_induct_rule)
  case (less k)
  show ?case
  proof (cases "\<exists>role. get_property (roleMap reg) k = RoleObj role")
    case False
    have "hasPermission n reg (RoleId k) p \<noteq> None" if "1 \<le> n" for n p
    proof -
      from that obtain m where "n = Suc m" by (cases n) auto
      with False show ?thesis
        by (cases "get_property (roleMap reg) k") auto
    qed
    then show ?thesis by blast
  next
    case True
    then obtain role where role: "get_property (roleMap reg) k = RoleObj role" ..
    then have "(c, k) \<in> inherits_graph reg" if "c \<in> set (inherits role)" for c
      using that by (auto simp: inherits_graph_def)
    with less.IH have "\<forall>c \<in> set (inherits role).
        \<exists>N. \<forall>n\<ge>N. \<forall>p. hasPermission n reg (RoleId c) p \<noteq> None"
      by blast
    then obtain M where M: "\<forall>c \<in> set (inherits role).
        \<forall>n\<ge>M. \<forall>p. hasPermission n reg (RoleId c) p \<noteq> None"
      using bound_for_list [of "inherits role" "\<lambda>c n. \<forall>p. hasPermission n reg (RoleId c) p \<noteq> None"]
      by blast
    have "hasPermission n reg (RoleId k) p \<noteq> None" if "Suc M \<le> n" for n p
    proof -
      from that obtain m where m: "n = Suc m" "M \<le> m" by (cases n) auto
      with M have "\<forall>c \<in> set (inherits role). hasPermission m reg (RoleId c) p \<noteq> None"
        by blast
      then have "some_call (\<lambda>c. hasPermission m reg (RoleId c) p) (inherits role) \<noteq> None"
        by (rule some_call_returns)
      with role m(1) show ?thesis by simp
    qed
    then show ?thesis by blast
  qed
qed

lemma hasPermission_returns:
  assumes fin: "finite (dom (own (roleMap reg)))" and acyc: "acyclic (inherits_graph reg)"
  shows "\<exists>N. \<forall>n\<ge>N. \<forall>s p. hasPermission n reg s p \<noteq> None"
proof -
  from fin have "finite (inherits_graph reg)" by (rule finite_inherits_graph)
  with acyc have wf: "wf (inherits_graph reg)" by (simp add: finite_acyclic_wf)
  let ?P = "dom (own (roleMap reg)) \<union> {''__proto__''}"
  from fin have "finite ?P" by simp
  moreover have "\<forall>k \<in> ?P. \<exists>N. \<forall>n\<ge>N. \<forall>p. hasPermission n reg (RoleId k) p \<noteq> None"
    using hasPermission_role_returns [OF wf] by blast
  ultimately obtain M where M: "\<forall>k \<in> ?P. \<forall>n\<ge>M. \<forall>p. hasPermission n reg (RoleId k) p \<noteq> None"
    using bound_for_finite [of ?P "\<lambda>k n. \<forall>p. hasPermission n reg (RoleId k) p \<noteq> None"]
    by blast
  have roles: "hasPermission n reg (RoleId k) p \<noteq> None" if "max 1 M \<le> n" for n k p
  proof (cases "k \<in> ?P")
    case True
    from that have "M \<le> n" by simp
    with M True show ?thesis by blast
  next
    case False
    then have no: "\<nexists>role. get_property (roleMap reg) k = RoleObj role"
      by (auto dest: get_property_RoleObj)
    from that obtain m where "n = Suc m" by (cases n) auto
    with no show ?thesis
      by (cases "get_property (roleMap reg) k") auto
  qed
  have "hasPermission n reg s p \<noteq> None" if "Suc (max 1 M) \<le> n" for n s p
  proof -
    from that obtain m where m: "n = Suc m" "max 1 M \<le> m" by (cases n) auto
    show ?thesis
    proof (cases s)
      case NoSubject
      with m show ?thesis by simp
    next
      case (RoleId k)
      with roles [of n k p] that show ?thesis by simp
    next
      case (User u)
      from roles m(2) have "\<forall>c \<in> set (roleIds u). hasPermission m reg (RoleId c) p \<noteq> None"
        by blast
      then have "some_call (\<lambda>c. hasPermission m reg (RoleId c) p) (roleIds u) \<noteq> None"
        by (rule some_call_returns)
      with User m(1) show ?thesis by simp
    qed
  qed
  then show ?thesis by blast
qed

lemma hasPermission_result:
  assumes "\<forall>n\<ge>N. \<forall>s p. hasPermission n reg s p \<noteq> None"
  shows "\<exists>r. \<forall>n\<ge>N. hasPermission n reg s p = Some r"
proof -
  from assms have "hasPermission N reg s p \<noteq> None" using le_refl by blast
  then obtain r where r: "hasPermission N reg s p = Some r" by blast
  then have "\<forall>n\<ge>N. hasPermission n reg s p = Some r"
    by (auto intro: hasPermission_mono)
  then show ?thesis ..
qed

lemma self_inheriting_never_returns:
  "hasPermission n (loadRoles initial [self_inheriting]) (RoleId ''loop'') p = None"
proof (induction n)
  case 0
  show ?case by simp
next
  case (Suc n)
  have "get_property (roleMap (loadRoles initial [self_inheriting])) ''loop''
      = RoleObj self_inheriting"
    by (simp add: initial_def set_property_def get_property_def self_inheriting_def)
  with Suc show ?case
    by (simp add: self_inheriting_def)
qed

text \<open>
  C6: when the \<open>inherits\<close> graph of the loaded roles is acyclic, \<open>hasPermission\<close>
  terminates on every input: there is a number of nested calls, the same for every
  subject and every permission, within which each call returns or throws, and the result
  is the same for every larger number. The search has no cycle guard: for a role that
  inherits from itself and has no matching permission no number of nested calls is
  enough.
\<close>

theorem hasPermission_terminates:
  "(acyclic (inherits_graph (loadRoles initial rs)) \<longrightarrow>
      (\<exists>N. \<forall>userOrRoleId permission.
         \<exists>r. \<forall>n\<ge>N. hasPermission n (loadRoles initial rs) userOrRoleId permission = Some r))
   \<and> (\<forall>n. hasPermission n (loadRoles initial [self_inheriting]) (RoleId ''loop'') permission
         = None)"
proof (intro conjI impI allI)
  assume "acyclic (inherits_graph (loadRoles initial rs))"
  moreover have "finite (dom (own (roleMap (loadRoles initial rs))))"
    by (rule finite_dom_loadRoles) (simp add: initial_def)
  ultimately obtain N where
    "\<forall>n\<ge>N. \<forall>s p. hasPermission n (loadRoles initial rs) s p \<noteq> None"
    using hasPermission_returns by blast
  then have "\<forall>s p. \<exists>r. \<forall>n\<ge>N. hasPermission n (loadRoles initial rs) s p = Some r"
    by (blast dest: hasPermission_result)
  then show "\<exists>N. \<forall>userOrRoleId permission.
      \<exists>r. \<forall>n\<ge>N. hasPermission n (loadRoles initial rs) userOrRoleId permission = Some r" ..
next
  fix n
  show "hasPermission n (loadRoles initial [self_inheriting]) (RoleId ''loop'') permission = None"
    by (rule self_inheriting_never_returns)
qed

lemma example_graph:
  "inherits_graph (loadRoles initial [driver, supervisor]) = {(''driver'', ''supervisor'')}"
  by (auto simp: inherits_graph_def initial_def set_property_def get_property_def
      driver_def supervisor_def object_prototype_keys_def split: if_splits)

theorem hasPermission_terminates_witness:
  "acyclic (inherits_graph (loadRoles initial [driver, supervisor]))
   \<and> (\<exists>N. \<forall>userOrRoleId permission.
         \<exists>r. \<forall>n\<ge>N. hasPermission n (loadRoles initial [driver, supervisor])
                  userOrRoleId permission = Some r)"
proof -
  have "acyclic (inherits_graph (loadRoles initial [driver, supervisor]))"
    unfolding example_graph by (simp add: wf_acyclic)
  with hasPermission_terminates [of "[driver, supervisor]"] show ?thesis
    by blast
qed

section \<open>The result of the permission check\<close>

lemma some_call_no_error:
  "\<forall>x \<in> set xs. f x \<noteq> Some (Inl e) \<Longrightarrow> some_call f xs \<noteq> Some (Inl e)"
  by (induction xs) (auto split: option.splits sum.splits)

lemma hasPermission_role_no_error:
  assumes graph: "\<forall>k \<in> Domain (inherits_graph reg). names_role_or_nothing reg k"
  shows "names_role_or_nothing reg k \<Longrightarrow> hasPermission n reg (RoleId k) p \<noteq> Some (Inl e)"
proof (induction n arbitrary: k)
  case 0
  show ?case by simp
next
  case (Suc n)
  show ?case
  proof (cases "\<exists>role. get_property (roleMap reg) k = RoleObj role")
    case False
    with Suc.prems have "\<not> truthy (get_property (roleMap reg) k)"
      by (cases "get_property (roleMap reg) k") (simp_all add: names_role_or_nothing_def)
    with False show ?thesis
      by (cases "get_property (roleMap reg) k") simp_all
  next
    case True
    then obtain role where role: "get_property (roleMap reg) k = RoleObj role" ..
    have "hasPermission n reg (RoleId c) p \<noteq> Some (Inl e)" if "c \<in> set (inherits role)" for c
    proof -
      from that role have "(c, k) \<in> inherits_graph reg"
        by (auto simp: inherits_graph_def)
      then have "c \<in> Domain (inherits_graph reg)" ..
      with graph have "names_role_or_nothing reg c" ..
      then show ?thesis by (rule Suc.IH)
    qed
    then have "some_call (\<lambda>c. hasPermission n reg (RoleId c) p) (inherits role) \<noteq> Some (Inl e)"
      by (intro some_call_no_error) blast
    with role show ?thesis by simp
  qed
qed

lemma hasPermission_user_no_error:
  assumes "\<forall>k \<in> set (roleIds u) \<union> Domain (inherits_graph reg). names_role_or_nothing reg k"
  shows "hasPermission n reg (User u) p \<noteq> Some (Inl e)"
proof (cases n)
  case 0
  then show ?thesis by simp
next
  case (Suc m)
  from assms have graph: "\<forall>k \<in> Domain (inherits_graph reg). names_role_or_nothing reg k"
    and ids: "\<forall>c \<in> set (roleIds u). names_role_or_nothing reg c"
    by blast+
  have "\<forall>c \<in> set (roleIds u). hasPermission m reg (RoleId c) p \<noteq> Some (Inl e)"
  proof
    fix c
    assume "c \<in> set (roleIds u)"
    with ids have "names_role_or_nothing reg c" ..
    with graph show "hasPermission m reg (RoleId c) p \<noteq> Some (Inl e)"
      by (rule hasPermission_role_no_error)
  qed
  then have "some_call (\<lambda>c. hasPermission m reg (RoleId c) p) (roleIds u) \<noteq> Some (Inl e)"
    by (rule some_call_no_error)
  with Suc show ?thesis by simp
qed

lemma hasPermission_user_total:
  assumes acyc: "acyclic (inherits_graph (loadRoles initial rs))"
    and names: "\<forall>k \<in> set (roleIds u) \<union> Domain (inherits_graph (loadRoles initial rs)).
      names_role_or_nothing (loadRoles initial rs) k"
  shows "\<exists>N. \<forall>n\<ge>N. \<forall>p. hasPermission n (loadRoles initial rs) (User u) p
      = Some (Inr (\<exists>roleId \<in> set (roleIds u). role_grants (loadRoles initial rs) p roleId))"
proof -
  let ?reg = "loadRoles initial rs"
  have "finite (dom (own (roleMap ?reg)))"
    by (rule finite_dom_loadRoles) (simp add: initial_def)
  with acyc obtain N where N: "\<forall>n\<ge>N. \<forall>s p. hasPermission n ?reg s p \<noteq> None"
    using hasPermission_returns by blast
  have "hasPermission n ?reg (User u) p
      = Some (Inr (\<exists>roleId \<in> set (roleIds u). role_grants ?reg p roleId))" if "N \<le> n" for n p
  proof -
    from N that obtain r where r: "hasPermission n ?reg (User u) p = Some r" by blast
    show ?thesis
    proof (cases r)
      case (Inl e)
      with r names show ?thesis
        using hasPermission_user_no_error [of u ?reg n p e] by simp
    next
      case (Inr b)
      with r have "b = (\<exists>roleId \<in> set (roleIds u). role_grants ?reg p roleId)"
        by (auto dest: hasPermission_user_grants)
      with r Inr show ?thesis by simp
    qed
  qed
  then show ?thesis by blast
qed

text \<open>
  C1: \<open>isAuthorized\<close> returns true exactly when \<open>hasPermission\<close> returns true for the
  user and every permission that \<open>fillPermissionTemplate\<close> produces, and it returns false
  at the first of these permissions for which \<open>hasPermission\<close> returns false, whatever
  comes after it. Whenever \<open>hasPermission\<close> returns for a user, its result says whether
  one of the user's role identifiers grants the permission, by a permission of its own or
  through the roles it inherits from. It does return, with this result, when the
  \<open>inherits\<close> graph of the loaded roles is acyclic and the identifiers of the user and of
  the \<open>inherits\<close> lists name roles or nothing.
\<close>

theorem isAuthorized_all_permissions:
  "(isAuthorized n reg u template options = Some (Inr True) \<longleftrightarrow>
      (\<forall>p \<in> set (fillPermissionTemplate (user_id u) template options).
         hasPermission n reg (User u) p = Some (Inr True)))
   \<and> (\<forall>ps p qs.
        fillPermissionTemplate (user_id u) template options = ps @ p # qs
        \<and> (\<forall>q \<in> set ps. hasPermission n reg (User u) q = Some (Inr True))
        \<and> hasPermission n reg (User u) p = Some (Inr False)
        \<longrightarrow> isAuthorized n reg u template options = Some (Inr False))
   \<and> (\<forall>p b.
        hasPermission n reg (User u) p = Some (Inr b)
        \<longrightarrow> b = (\<exists>roleId \<in> set (roleIds u). role_grants reg p roleId))
   \<and> (acyclic (inherits_graph (loadRoles initial rs))
      \<and> (\<forall>k \<in> set (roleIds u) \<union> Domain (inherits_graph (loadRoles initial rs)).
            names_role_or_nothing (loadRoles initial rs) k)
      \<longrightarrow> (\<exists>N. \<forall>m\<ge>N. \<forall>p. hasPermission m (loadRoles initial rs) (User u) p
            = Some (Inr (\<exists>roleId \<in> set (roleIds u).
                           role_grants (loadRoles initial rs) p roleId))))"
proof (intro conjI allI impI)
  show "isAuthorized n reg u template options = Some (Inr True) \<longleftrightarrow>
      (\<forall>p \<in> set (fillPermissionTemplate (user_id u) template options).
         hasPermission n reg (User u) p = Some (Inr True))"
    by (simp add: isAuthorized_def every_call_True_iff)
next
  fix ps p qs
  assume "fillPermissionTemplate (user_id u) template options = ps @ p # qs
        \<and> (\<forall>q \<in> set ps. hasPermission n reg (User u) q = Some (Inr True))
        \<and> hasPermission n reg (User u) p = Some (Inr False)"
  then show "isAuthorized n reg u template options = Some (Inr False)"
    by (simp add: isAuthorized_def every_call_False)
next
  fix p b
  assume "hasPermission n reg (User u) p = Some (Inr b)"
  then show "b = (\<exists>roleId \<in> set (roleIds u). role_grants reg p roleId)"
    by (rule hasPermission_user_grants)
next
  assume "acyclic (inherits_graph (loadRoles initial rs))
      \<and> (\<forall>k \<in> set (roleIds u) \<union> Domain (inherits_graph (loadRoles initial rs)).
            names_role_or_nothing (loadRoles initial rs) k)"
  then show "\<exists>N. \<forall>m\<ge>N. \<forall>p. hasPermission m (loadRoles initial rs) (User u) p
            = Some (Inr (\<exists>roleId \<in> set (roleIds u).
                           role_grants (loadRoles initial rs) p roleId))"
    using hasPermission_user_total [of rs u] by blast
qed

lemma readme_permissions:
  "fillPermissionTemplate (Num 5) readme_template readme_options
     = [''users.update.self.driver'', ''users.update.self.supervisor'']"
  by (simp add: readme_template_def readme_options_def fillPermissionTemplate_def replace_def
      placeholder_def)

lemma example_names:
  "names_role_or_nothing (loadRoles initial [driver, supervisor]) ''driver''"
  "names_role_or_nothing (loadRoles initial [driver, supervisor]) ''supervisor''"
  by (simp_all add: names_role_or_nothing_def get_property_def set_property_def initial_def
      driver_def supervisor_def)

theorem isAuthorized_all_permissions_witness:
  "isAuthorized 3 (loadRoles initial [driver, supervisor])
     \<lparr>user_id = Num 5, roleIds = [''supervisor'']\<rparr> readme_template readme_options
     = Some (Inr True)
   \<and> isAuthorized 3 (loadRoles initial [driver, supervisor])
     \<lparr>user_id = Num 5, roleIds = [''driver'']\<rparr> readme_template readme_options
     = Some (Inr False)
   \<and> role_grants (loadRoles initial [driver, supervisor]) ''users.update.self.driver''
       ''supervisor''
   \<and> \<not> role_grants (loadRoles initial [driver, supervisor]) ''users.update.self.supervisor''
       ''driver''
   \<and> (\<exists>N. \<forall>m\<ge>N. hasPermission m (loadRoles initial [driver, supervisor])
         (User \<lparr>user_id = Num 5, roleIds = [''supervisor'']\<rparr>) ''users.update.self.driver''
       = Some (Inr True))"
proof (intro conjI)
  let ?reg = "loadRoles initial [driver, supervisor]"
  let ?sup = "\<lparr>user_id = Num 5, roleIds = [''supervisor'']\<rparr>"
  let ?drv = "\<lparr>user_id = Num 5, roleIds = [''driver'']\<rparr>"
  have sup1: "hasPermission 3 ?reg (User ?sup) ''users.update.self.driver'' = Some (Inr True)"
    by code_simp
  have sup2: "hasPermission 3 ?reg (User ?sup) ''users.update.self.supervisor'' = Some (Inr True)"
    by code_simp
  have drv1: "hasPermission 3 ?reg (User ?drv) ''users.update.self.driver'' = Some (Inr True)"
    by code_simp
  have drv2: "hasPermission 3 ?reg (User ?drv) ''users.update.self.supervisor'' = Some (Inr False)"
    by code_simp
  note inst_sup = isAuthorized_all_permissions
    [of 3 ?reg ?sup readme_template readme_options "[driver, supervisor]"]
  note inst_drv = isAuthorized_all_permissions
    [of 3 ?reg ?drv readme_template readme_options "[driver, supervisor]"]
  note all_sup = inst_sup [THEN conjunct1]
  note grants_sup = inst_sup [THEN conjunct2, THEN conjunct2, THEN conjunct1]
  note total_sup = inst_sup [THEN conjunct2, THEN conjunct2, THEN conjunct2]
  note first_drv = inst_drv [THEN conjunct2, THEN conjunct1]
  note grants_drv = inst_drv [THEN conjunct2, THEN conjunct2, THEN conjunct1]
  show "isAuthorized 3 ?reg ?sup readme_template readme_options = Some (Inr True)"
    using all_sup sup1 sup2 by (simp add: readme_permissions)
  have "fillPermissionTemplate (user_id ?drv) readme_template readme_options
      = [''users.update.self.driver''] @ ''users.update.self.supervisor'' # []"
    by (simp add: readme_permissions)
  moreover have "\<forall>q \<in> set [''users.update.self.driver''].
      hasPermission 3 ?reg (User ?drv) q = Some (Inr True)"
    using drv1 by simp
  ultimately show "isAuthorized 3 ?reg ?drv readme_template readme_options = Some (Inr False)"
    using first_drv drv2 by blast
  from grants_sup sup1
  have "\<exists>roleId \<in> set (roleIds ?sup). role_grants ?reg ''users.update.self.driver'' roleId"
    by blast
  then have granted: "role_grants ?reg ''users.update.self.driver'' ''supervisor''"
    by simp
  then show "role_grants ?reg ''users.update.self.driver'' ''supervisor''" .
  from grants_drv drv2
  have "\<not> (\<exists>roleId \<in> set (roleIds ?drv).
      role_grants ?reg ''users.update.self.supervisor'' roleId)"
    by blast
  then show "\<not> role_grants ?reg ''users.update.self.supervisor'' ''driver''"
    by simp
  have "acyclic (inherits_graph ?reg)"
    unfolding example_graph by (simp add: wf_acyclic)
  moreover have "\<forall>k \<in> set (roleIds ?sup) \<union> Domain (inherits_graph ?reg).
      names_role_or_nothing ?reg k"
  proof
    fix k
    assume "k \<in> set (roleIds ?sup) \<union> Domain (inherits_graph ?reg)"
    then have "k = ''supervisor'' \<or> k = ''driver''"
      unfolding example_graph by auto
    then show "names_role_or_nothing ?reg k"
      using example_names by blast
  qed
  ultimately obtain N where "\<forall>m\<ge>N. \<forall>p. hasPermission m ?reg (User ?sup) p
      = Some (Inr (\<exists>roleId \<in> set (roleIds ?sup). role_grants ?reg p roleId))"
    using total_sup by blast
  with granted have "\<forall>m\<ge>N. hasPermission m ?reg (User ?sup) ''users.update.self.driver''
      = Some (Inr True)"
    by simp
  then show "\<exists>N. \<forall>m\<ge>N. hasPermission m ?reg (User ?sup) ''users.update.self.driver''
      = Some (Inr True)"
    by (rule exI [of _ N])
qed

section \<open>Properties of the registry\<close>

lemma roles_loadRoles: "roles (loadRoles reg rs) = roles reg @ rs"
  by (induction rs arbitrary: reg) simp_all

lemma roleMap_loadRoles:
  "roleMap (loadRoles reg rs) = fold (\<lambda>r obj. set_property obj (role_id r) r) rs (roleMap reg)"
  by (induction rs arbitrary: reg) simp_all

lemma fold_set_property_absorb:
  "set_property (fold (\<lambda>r obj. set_property obj (role_id r) r) rs (set_property obj k r)) k r
     = set_property (fold (\<lambda>r obj. set_property obj (role_id r) r) rs obj) k r"
proof (induction rs arbitrary: obj)
  case Nil
  show ?case by (simp add: set_property_absorb)
next
  case (Cons x xs)
  show ?case
  proof (cases "role_id x = k")
    case True
    then show ?thesis by (simp add: set_property_absorb)
  next
    case False
    then have "set_property (set_property obj k r) (role_id x) x
        = set_property (set_property obj (role_id x) x) k r"
      by (simp add: set_property_commute)
    then show ?thesis by (simp add: Cons.IH)
  qed
qed

lemma fold_set_property_idem:
  "fold (\<lambda>r obj. set_property obj (role_id r) r) rs
     (fold (\<lambda>r obj. set_property obj (role_id r) r) rs obj)
   = fold (\<lambda>r obj. set_property obj (role_id r) r) rs obj"
proof (induction rs rule: rev_induct)
  case Nil
  show ?case by simp
next
  case (snoc x xs)
  then show ?case by (simp add: fold_set_property_absorb)
qed

lemma roleMap_loadRoles_twice:
  "roleMap (loadRoles (loadRoles reg rs) rs) = roleMap (loadRoles reg rs)"
  by (simp add: roleMap_loadRoles fold_set_property_idem)

lemma getRole_loadRoles_single: "getRole (loadRoles reg [r]) (role_id r) = RoleObj r"
  by (simp add: getRole_def get_property_set_same has_property_set_same)

lemma loaded_last:
  assumes "r \<in> set rs"
  shows "get_property (fold (\<lambda>r obj. set_property obj (role_id r) r) rs obj) (role_id r)
           = RoleObj (last (filter (\<lambda>x. role_id x = role_id r) rs))
         \<and> (own (fold (\<lambda>r obj. set_property obj (role_id r) r) rs obj) (role_id r) \<noteq> None
            \<or> role_id r = ''__proto__'')"
  using assms
proof (induction rs rule: rev_induct)
  case Nil
  then show ?case by simp
next
  case (snoc x xs)
  let ?obj = "fold (\<lambda>r obj. set_property obj (role_id r) r) xs obj"
  show ?case
  proof (cases "role_id x = role_id r")
    case True
    have "get_property (set_property ?obj (role_id x) x) (role_id x) = RoleObj x"
      by (rule get_property_set_same)
    moreover have "own (set_property ?obj (role_id x) x) (role_id x) \<noteq> None
        \<or> role_id x = ''__proto__''"
      by (simp add: set_property_def)
    ultimately show ?thesis using True by simp
  next
    case False
    with snoc.prems have "r \<in> set xs" by auto
    with snoc.IH have IH: "get_property ?obj (role_id r)
        = RoleObj (last (filter (\<lambda>x. role_id x = role_id r) xs))"
      "own ?obj (role_id r) \<noteq> None \<or> role_id r = ''__proto__''"
      by simp_all
    from False have ne: "role_id r \<noteq> role_id x" by simp
    from get_property_set_other [OF ne IH(2), of x] IH(1) False show ?thesis
      by simp
  qed
qed

lemma getRole_loaded:
  assumes "r \<in> set rs"
  shows "getRole (loadRoles reg rs) (role_id r)
           = RoleObj (last (filter (\<lambda>x. role_id x = role_id r) rs))"
proof -
  from loaded_last [OF assms, of "roleMap reg"]
  have get: "get_property (roleMap (loadRoles reg rs)) (role_id r)
          = RoleObj (last (filter (\<lambda>x. role_id x = role_id r) rs))"
    and "own (roleMap (loadRoles reg rs)) (role_id r) \<noteq> None \<or> role_id r = ''__proto__''"
    by (simp_all add: roleMap_loadRoles)
  then have "has_property (roleMap (loadRoles reg rs)) (role_id r)"
    by (auto intro: has_property_entry has_property_proto)
  with get show ?thesis by (simp add: getRole_def)
qed

lemma loaded_role_in_list:
  assumes "get_property (fold (\<lambda>r obj. set_property obj (role_id r) r) rs obj) k = RoleObj v"
  shows "(v \<in> set rs \<and> role_id v = k) \<or> get_property obj k = RoleObj v"
  using assms
proof (induction rs arbitrary: v rule: rev_induct)
  case Nil
  then show ?case by simp
next
  case (snoc x xs)
  let ?obj = "fold (\<lambda>r obj. set_property obj (role_id r) r) xs obj"
  from snoc.prems have "get_property (set_property ?obj (role_id x) x) k = RoleObj v"
    by simp
  then have "(v = x \<and> role_id x = k) \<or> get_property ?obj k = RoleObj v"
    by (rule get_property_set_RoleObj)
  with snoc.IH show ?case by auto
qed

lemma getRole_initial_loaded:
  assumes "getRole (loadRoles initial rs) k = RoleObj v"
  shows "v \<in> set (roles (loadRoles initial rs)) \<and> role_id v = k"
proof -
  from assms have "get_property (roleMap (loadRoles initial rs)) k = RoleObj v"
    by (simp add: getRole_def split: if_splits)
  then have "(v \<in> set rs \<and> role_id v = k) \<or> get_property (roleMap initial) k = RoleObj v"
    unfolding roleMap_loadRoles by (rule loaded_role_in_list)
  moreover have "get_property (roleMap initial) k \<noteq> RoleObj v"
    by (simp add: initial_def get_property_def)
  ultimately show ?thesis
    by (simp add: initial_def roles_loadRoles)
qed

lemma two_with_identifier:
  assumes "old \<in> set xs" and "role_id old = role_id r"
  shows "2 \<le> length (filter (\<lambda>x. role_id x = role_id r) (xs @ [r]))"
proof -
  from assms have "filter (\<lambda>x. role_id x = role_id r) xs \<noteq> []"
    by (auto simp: filter_empty_conv)
  then have "1 \<le> length (filter (\<lambda>x. role_id x = role_id r) xs)"
    by (simp add: Suc_le_eq)
  then show ?thesis by simp
qed

lemma count_list_twice:
  assumes "r \<in> set rs"
  shows "2 \<le> count_list (xs @ rs @ rs) r"
proof -
  from assms have "count_list rs r \<noteq> 0"
    by (simp add: count_list_0_iff)
  then show ?thesis by simp
qed

text \<open>
  C7: \<open>loadRoles\<close> appends every role to \<open>roles\<close> and removes nothing, and after loading
  a role \<open>getRole\<close> gives that role for its identifier. When the identifier was already
  in a registry built by \<open>loadRoles\<close>, the entry is overwritten by the new role, and
  \<open>roles\<close> then holds at least two roles with this identifier. Loading the same list a
  second time appends it once more, so each of its roles occurs at least twice in
  \<open>roles\<close>, but leaves \<open>roleMap\<close> as it was: \<open>getRole\<close> gives the same answer for every
  identifier, and for the identifier of a role of the list it gives the last role of the
  list with this identifier.
\<close>

theorem loadRoles_duplicate_identifier:
  "roles (loadRoles reg rs) = roles reg @ rs
   \<and> getRole (loadRoles reg [r]) (role_id r) = RoleObj r
   \<and> (getRole (loadRoles initial rs0) (role_id r) = RoleObj old \<longrightarrow>
        getRole (loadRoles (loadRoles initial rs0) [r]) (role_id r) = RoleObj r
        \<and> roles (loadRoles (loadRoles initial rs0) [r]) = roles (loadRoles initial rs0) @ [r]
        \<and> 2 \<le> length (filter (\<lambda>x. role_id x = role_id r)
                 (roles (loadRoles (loadRoles initial rs0) [r]))))
   \<and> roles (loadRoles (loadRoles reg rs) rs) = roles reg @ rs @ rs
   \<and> (\<forall>x \<in> set rs. 2 \<le> count_list (roles (loadRoles (loadRoles reg rs) rs)) x)
   \<and> roleMap (loadRoles (loadRoles reg rs) rs) = roleMap (loadRoles reg rs)
   \<and> (\<forall>roleId. getRole (loadRoles (loadRoles reg rs) rs) roleId
                  = getRole (loadRoles reg rs) roleId)
   \<and> (\<forall>x \<in> set rs. getRole (loadRoles (loadRoles reg rs) rs) (role_id x)
                  = RoleObj (last (filter (\<lambda>y. role_id y = role_id x) rs)))"
proof (intro conjI impI ballI allI)
  show "roles (loadRoles reg rs) = roles reg @ rs"
    by (rule roles_loadRoles)
  show "getRole (loadRoles reg [r]) (role_id r) = RoleObj r"
    by (rule getRole_loadRoles_single)
  show "roles (loadRoles (loadRoles reg rs) rs) = roles reg @ rs @ rs"
    by (simp add: roles_loadRoles)
  show "roleMap (loadRoles (loadRoles reg rs) rs) = roleMap (loadRoles reg rs)"
    by (rule roleMap_loadRoles_twice)
  show "getRole (loadRoles (loadRoles reg rs) rs) roleId = getRole (loadRoles reg rs) roleId"
    for roleId
    by (simp add: getRole_def roleMap_loadRoles_twice)
  show "2 \<le> count_list (roles (loadRoles (loadRoles reg rs) rs)) x" if "x \<in> set rs" for x
    using count_list_twice [OF that, of "roles reg"] by (simp add: roles_loadRoles)
  show "getRole (loadRoles (loadRoles reg rs) rs) (role_id x)
          = RoleObj (last (filter (\<lambda>y. role_id y = role_id x) rs))" if "x \<in> set rs" for x
    using that by (rule getRole_loaded)
next
  assume "getRole (loadRoles initial rs0) (role_id r) = RoleObj old"
  then have old: "old \<in> set (roles (loadRoles initial rs0))" "role_id old = role_id r"
    by (auto dest: getRole_initial_loaded)
  show "getRole (loadRoles (loadRoles initial rs0) [r]) (role_id r) = RoleObj r"
    by (rule getRole_loadRoles_single)
  show "roles (loadRoles (loadRoles initial rs0) [r]) = roles (loadRoles initial rs0) @ [r]"
    by (rule roles_loadRoles)
  from old show "2 \<le> length (filter (\<lambda>x. role_id x = role_id r)
                 (roles (loadRoles (loadRoles initial rs0) [r])))"
    unfolding roles_loadRoles [of _ "[r]"] by (rule two_with_identifier)
qed

theorem loadRoles_duplicate_identifier_witness:
  "getRole (loadRoles (loadRoles initial [driver, supervisor]) [driver\<lparr>display := ''Chauffeur''\<rparr>])
       ''driver''
     = RoleObj (driver\<lparr>display := ''Chauffeur''\<rparr>)
   \<and> 2 \<le> length (filter (\<lambda>x. role_id x = ''driver'')
            (roles (loadRoles (loadRoles initial [driver, supervisor])
               [driver\<lparr>display := ''Chauffeur''\<rparr>])))
   \<and> getRole (loadRoles (loadRoles initial [driver, supervisor]) [driver, supervisor])
       ''supervisor''
     = RoleObj supervisor
   \<and> 2 \<le> count_list
         (roles (loadRoles (loadRoles initial [driver, supervisor]) [driver, supervisor]))
         supervisor"
proof -
  let ?r = "driver\<lparr>display := ''Chauffeur''\<rparr>"
  have id: "role_id ?r = ''driver''" "role_id supervisor = ''supervisor''"
    "role_id driver = ''driver''"
    by (simp_all add: driver_def supervisor_def)
  have present: "getRole (loadRoles initial [driver, supervisor]) (role_id ?r) = RoleObj driver"
    by (simp add: id getRole_def has_property_def get_property_def set_property_def initial_def
        split: option.split)
  have member: "supervisor \<in> set [driver, supervisor]"
    by simp
  have last_sup: "last (filter (\<lambda>y. role_id y = role_id supervisor) [driver, supervisor])
      = supervisor"
    by (simp add: id)
  note inst = loadRoles_duplicate_identifier
    [of initial "[driver, supervisor]" ?r "[driver, supervisor]" driver]
  from inst present
  have "getRole (loadRoles (loadRoles initial [driver, supervisor]) [?r]) (role_id ?r) = RoleObj ?r"
    and "2 \<le> length (filter (\<lambda>x. role_id x = role_id ?r)
            (roles (loadRoles (loadRoles initial [driver, supervisor]) [?r])))"
    by blast+
  moreover from inst member
  have "getRole (loadRoles (loadRoles initial [driver, supervisor]) [driver, supervisor])
          (role_id supervisor)
        = RoleObj (last (filter (\<lambda>y. role_id y = role_id supervisor) [driver, supervisor]))"
    and "2 \<le> count_list
         (roles (loadRoles (loadRoles initial [driver, supervisor]) [driver, supervisor]))
         supervisor"
    by blast+
  ultimately show ?thesis
    unfolding last_sup unfolding id by blast
qed

end
